theory Spec2Isabelle
  imports Complex_Main "HOL-Library.Product_Lexorder"
begin

section \<open>JavaScript values used by cronexplain\<close>

text \<open>
  A JavaScript string is a \<^typ>\<open>string\<close>: each \<^typ>\<open>char\<close> stands for the UTF-16 code
  unit of the same value, so the embedding covers the strings whose code units are below 256.
  A JavaScript number is a \<open>jsnum\<close>: \<open>NaN\<close>, the two infinities, or a finite IEEE 754
  double, kept as the rational number it denotes. Every operation that produces a number
  rounds its exact result with \<open>toDouble\<close> below. The sign of zero is not kept: no operation
  of the program tells \<open>-0\<close> from \<open>0\<close>. \<open>undefined\<close> is \<open>None\<close> where the source can
  produce it.
\<close>

datatype jsnum = NaN | Fin rat | PosInf | NegInf

text \<open>The relational operators \<open><=\<close> and \<open><\<close> of JavaScript on numbers: false whenever an
  operand is NaN.\<close>

fun jsLe :: "jsnum \<Rightarrow> jsnum \<Rightarrow> bool" where
  "jsLe NaN _ = False"
| "jsLe _ NaN = False"
| "jsLe NegInf _ = True"
| "jsLe _ PosInf = True"
| "jsLe (Fin a) (Fin b) = (a \<le> b)"
| "jsLe (Fin a) NegInf = False"
| "jsLe PosInf (Fin b) = False"
| "jsLe PosInf NegInf = False"

definition jsLt :: "jsnum \<Rightarrow> jsnum \<Rightarrow> bool" where
  "jsLt a b = (jsLe a b \<and> \<not> jsLe b a)"

definition isNaN :: "jsnum \<Rightarrow> bool" where
  "isNaN x = (x = NaN)"

subsection \<open>Rounding to a double\<close>

text \<open>
  \<open>toDouble x\<close> is the double nearest to the rational \<open>x\<close>, ties going to the even
  significand: the significand has 53 bits, the least positive double is \<open>2 ^ (-1074)\<close>, and a
  result of magnitude \<open>2 ^ 1024\<close> or more is an infinity. \<open>binaryExponent x\<close> is the integer
  \<open>e\<close> with \<open>2 ^ e \<le> x < 2 ^ (e + 1)\<close>, for a positive \<open>x\<close>.
\<close>

definition pow2 :: "int \<Rightarrow> rat" where
  "pow2 k = (if 0 \<le> k then 2 ^ nat k else 1 / 2 ^ nat (- k))"

function log2floor :: "nat \<Rightarrow> nat" where
  "log2floor n = (if n < 2 then 0 else Suc (log2floor (n div 2)))"
  by pat_completeness auto
termination
  by (relation "measure id") auto

declare log2floor.simps [simp del]

function negExponent :: "rat \<Rightarrow> nat" where
  "negExponent x = (if x \<le> 0 \<or> 1 \<le> x then 0 else Suc (negExponent (2 * x)))"
  by pat_completeness auto
termination
proof (relation "measure (\<lambda>x. nat \<lceil>1 / x\<rceil>)")
  show "wf (measure (\<lambda>x. nat \<lceil>1 / x\<rceil>))"
    by simp
next
  fix x :: rat
  assume "\<not> (x \<le> 0 \<or> 1 \<le> x)"
  then have x: "0 < x" "x < 1" by simp_all
  define y where "y = 1 / x"
  have y: "1 < y" using x by (simp add: y_def)
  then have c: "2 \<le> \<lceil>y\<rceil>"
    by (simp add: le_ceiling_iff)
  then have two: "(2::rat) \<le> of_int \<lceil>y\<rceil>"
    by (metis of_int_le_iff of_int_numeral)
  have "y \<le> of_int \<lceil>y\<rceil>"
    by (rule le_of_int_ceiling)
  then have "y / 2 \<le> of_int \<lceil>y\<rceil> - 1"
    using two by linarith
  then have "y / 2 \<le> of_int (\<lceil>y\<rceil> - 1)"
    by simp
  then have le: "\<lceil>y / 2\<rceil> \<le> \<lceil>y\<rceil> - 1"
    by (simp only: ceiling_le_iff)
  have eq: "1 / (2 * x) = y / 2"
    by (simp add: y_def)
  have a: "\<lceil>1 / (2 * x)\<rceil> = \<lceil>y / 2\<rceil>"
    by (simp only: eq)
  have b: "\<lceil>1 / x\<rceil> = \<lceil>y\<rceil>"
    by (simp only: y_def)
  from a b le c have "nat \<lceil>1 / (2 * x)\<rceil> < nat \<lceil>1 / x\<rceil>"
    by linarith
  then show "(2 * x, x) \<in> measure (\<lambda>x. nat \<lceil>1 / x\<rceil>)"
    by (simp only: in_measure)
qed

declare negExponent.simps [simp del]

definition binaryExponent :: "rat \<Rightarrow> int" where
  "binaryExponent x =
     (if 1 \<le> x then int (log2floor (nat \<lfloor>x\<rfloor>)) else - int (negExponent x))"

definition roundHalfEven :: "rat \<Rightarrow> int" where
  "roundHalfEven x =
     (let f = \<lfloor>x\<rfloor>; d = x - of_int f
      in if d < 1 / 2 then f
         else if 1 / 2 < d then f + 1
         else if even f then f else f + 1)"

definition roundMagnitude :: "rat \<Rightarrow> jsnum" where
  "roundMagnitude x =
     (let q = max (binaryExponent x - 52) (- 1074);
          r = of_int (roundHalfEven (x / pow2 q)) * pow2 q
      in if 2 ^ 1024 \<le> r then PosInf else Fin r)"

definition jsNegate :: "jsnum \<Rightarrow> jsnum" where
  "jsNegate x =
     (case x of NaN \<Rightarrow> NaN | Fin r \<Rightarrow> Fin (- r) | PosInf \<Rightarrow> NegInf | NegInf \<Rightarrow> PosInf)"

definition toDouble :: "rat \<Rightarrow> jsnum" where
  "toDouble x =
     (if x = 0 then Fin 0
      else if 0 < x then roundMagnitude x
      else jsNegate (roundMagnitude (- x)))"

text \<open>The operators \<open>+\<close> and \<open>-\<close> on numbers.\<close>

fun jsAdd :: "jsnum \<Rightarrow> jsnum \<Rightarrow> jsnum" where
  "jsAdd (Fin a) (Fin b) = toDouble (a + b)"
| "jsAdd NaN _ = NaN"
| "jsAdd _ NaN = NaN"
| "jsAdd PosInf NegInf = NaN"
| "jsAdd NegInf PosInf = NaN"
| "jsAdd PosInf _ = PosInf"
| "jsAdd NegInf _ = NegInf"
| "jsAdd (Fin a) b = b"

definition jsSub :: "jsnum \<Rightarrow> jsnum \<Rightarrow> jsnum" where
  "jsSub a b = jsAdd a (jsNegate b)"

subsection \<open>Strings\<close>

text \<open>White space as \<open>String.prototype.trim\<close>, \<open>parseInt\<close>, \<open>Number\<close> and the regular
  expression class \<open>\s\<close> see it: TAB, LF, VT, FF, CR, SPACE and NO-BREAK SPACE.\<close>

definition isWhiteSpace :: "char \<Rightarrow> bool" where
  "isWhiteSpace c = ((of_char c :: nat) \<in> set [9, 10, 11, 12, 13, 32, 160])"

definition trim :: "string \<Rightarrow> string" where
  "trim s = rev (dropWhile isWhiteSpace (rev (dropWhile isWhiteSpace s)))"

text \<open>\<open>s.includes(c)\<close> and \<open>s.startsWith(p)\<close> for a one-character \<open>c\<close>.\<close>

definition jsIncludes :: "string \<Rightarrow> char \<Rightarrow> bool" where
  "jsIncludes s c = (c \<in> set s)"

definition startsWith :: "string \<Rightarrow> string \<Rightarrow> bool" where
  "startsWith s p = (take (length p) s = p)"

text \<open>\<open>s.split(c)\<close> for a one-character separator: never the empty array.\<close>

fun jsSplit :: "char \<Rightarrow> string \<Rightarrow> string list" where
  "jsSplit sep [] = [[]]"
| "jsSplit sep (c # cs) =
     (if c = sep then [] # jsSplit sep cs
      else (case jsSplit sep cs of
              p # ps \<Rightarrow> (c # p) # ps
            | [] \<Rightarrow> [[c]]))"

text \<open>\<open>s.split(/\s+/)\<close>: a maximal run of white space is one separator.\<close>

fun splitWhiteSpace :: "string \<Rightarrow> string list" where
  "splitWhiteSpace [] = [[]]"
| "splitWhiteSpace (c # cs) =
     (if isWhiteSpace c then
        (case cs of
           d # _ \<Rightarrow> if isWhiteSpace d then splitWhiteSpace cs else [] # splitWhiteSpace cs
         | [] \<Rightarrow> [] # splitWhiteSpace cs)
      else (case splitWhiteSpace cs of
              p # ps \<Rightarrow> (c # p) # ps
            | [] \<Rightarrow> [[c]]))"

text \<open>\<open>xs.join(sep)\<close>.\<close>

fun join :: "string \<Rightarrow> string list \<Rightarrow> string" where
  "join sep [] = []"
| "join sep [x] = x"
| "join sep (x # y # ys) = x @ sep @ join sep (y # ys)"

text \<open>\<open>String.prototype.toLowerCase\<close> on code units below 256: the letters A to Z and the
  accented capitals U+00C0 to U+00DE (but the multiplication sign U+00D7) move up by 32.\<close>

definition lowerChar :: "char \<Rightarrow> char" where
  "lowerChar c =
     (let n = (of_char c :: nat)
      in if (65 \<le> n \<and> n \<le> 90) \<or> (192 \<le> n \<and> n \<le> 222 \<and> n \<noteq> 215)
         then char_of (n + 32) else c)"

definition toLowerCase :: "string \<Rightarrow> string" where
  "toLowerCase s = map lowerChar s"

text \<open>\<open>s.replace(new RegExp(name, "gi"), rep)\<close> for a pattern of plain lower-case letters
  on a string that is already lower case: every occurrence, left to right, not overlapping.\<close>

function replaceAll :: "string \<Rightarrow> string \<Rightarrow> string \<Rightarrow> string" where
  "replaceAll pat rep s =
     (if s = [] then []
      else if pat \<noteq> [] \<and> take (length pat) s = pat
           then rep @ replaceAll pat rep (drop (length pat) s)
      else hd s # replaceAll pat rep (tl s))"
  by pat_completeness auto
termination
  by (relation "measure (\<lambda>(pat, rep, s). length s)") (auto simp: neq_Nil_conv)

declare replaceAll.simps [simp del]

subsection \<open>Reading numbers\<close>

definition digitOf :: "nat \<Rightarrow> char \<Rightarrow> nat option" where
  "digitOf radix c =
     (let n = (of_char c :: nat);
          d = (if 48 \<le> n \<and> n \<le> 57 then Some (n - 48)
               else if 97 \<le> n \<and> n \<le> 122 then Some (n - 87)
               else if 65 \<le> n \<and> n \<le> 90 then Some (n - 55)
               else None)
      in case d of
           Some v \<Rightarrow> if v < radix then Some v else None
         | None \<Rightarrow> None)"

fun leadingDigits :: "nat \<Rightarrow> string \<Rightarrow> nat list" where
  "leadingDigits radix [] = []"
| "leadingDigits radix (c # cs) =
     (case digitOf radix c of
        Some d \<Rightarrow> d # leadingDigits radix cs
      | None \<Rightarrow> [])"

definition digitsValue :: "nat \<Rightarrow> nat list \<Rightarrow> nat" where
  "digitsValue radix ds = foldl (\<lambda>acc d. acc * radix + d) 0 ds"

definition isSign :: "char \<Rightarrow> bool" where
  "isSign c = (c = CHR ''+'' \<or> c = CHR ''-'')"

definition stripSign :: "string \<Rightarrow> string" where
  "stripSign s = (case s of c # cs \<Rightarrow> if isSign c then cs else s | [] \<Rightarrow> s)"

definition isNegative :: "string \<Rightarrow> bool" where
  "isNegative s = (case s of c # _ \<Rightarrow> c = CHR ''-'' | [] \<Rightarrow> False)"

text \<open>\<open>parseInt(s, radix)\<close> for the two ways the source calls it: radix 10 (\<open>Some 10\<close>) and
  no radix (\<open>None\<close>: 16 after a \<open>0x\<close> prefix, else 10). Leading white space and one sign are
  skipped, the longest run of digits is read, anything after it is ignored; no digit gives
  NaN. The integer read is rounded to a double, as V8 does for any number of digits.\<close>

definition parseInt :: "string \<Rightarrow> nat option \<Rightarrow> jsnum" where
  "parseInt input radix =
     (let s = dropWhile isWhiteSpace input;
          body = stripSign s;
          hex = (radix = None \<and> (take 2 body = ''0x'' \<or> take 2 body = ''0X''));
          r = (case radix of Some k \<Rightarrow> k | None \<Rightarrow> if hex then 16 else 10);
          ds = leadingDigits r (if hex then drop 2 body else body)
      in if ds = [] then NaN
         else toDouble (of_int ((if isNegative s then -1 else 1) * int (digitsValue r ds))))"

text \<open>A numeric literal of the source with an integer value, as the number it denotes.\<close>

definition numOfInt :: "int \<Rightarrow> jsnum" where
  "numOfInt n = toDouble (of_int n)"

text \<open>\<open>Number(s)\<close> on a string (StringToNumber): white space is trimmed; the empty string is
  0; \<open>0x\<close>, \<open>0o\<close> and \<open>0b\<close> introduce an unsigned integer in that radix; otherwise an optional
  sign and \<open>Infinity\<close> or a decimal literal with optional fraction and exponent. The whole
  string has to be consumed, else the result is NaN. The value read is rounded to a double.\<close>

definition nonDecimal :: "nat \<Rightarrow> string \<Rightarrow> jsnum" where
  "nonDecimal radix t =
     (let ds = leadingDigits radix t
      in if t \<noteq> [] \<and> length ds = length t then toDouble (of_nat (digitsValue radix ds)) else NaN)"

definition scale10 :: "nat \<Rightarrow> int \<Rightarrow> rat" where
  "scale10 m k = (if 0 \<le> k then of_nat m * 10 ^ nat k else of_nat m / 10 ^ nat (- k))"

definition exponentPart :: "string \<Rightarrow> int option" where
  "exponentPart t =
     (case t of
        [] \<Rightarrow> Some 0
      | c # cs \<Rightarrow>
          if c = CHR ''e'' \<or> c = CHR ''E'' then
            (let ds = leadingDigits 10 (stripSign cs)
             in if ds \<noteq> [] \<and> length ds = length (stripSign cs)
                then Some ((if isNegative cs then -1 else 1) * int (digitsValue 10 ds))
                else None)
          else None)"

definition unsignedDecimal :: "string \<Rightarrow> rat option" where
  "unsignedDecimal t =
     (let ip = leadingDigits 10 t;
          r1 = drop (length ip) t;
          dot = (case r1 of c # _ \<Rightarrow> c = CHR ''.'' | [] \<Rightarrow> False);
          fp = (if dot then leadingDigits 10 (tl r1) else []);
          r2 = (if dot then drop (length fp) (tl r1) else r1)
      in if ip = [] \<and> fp = [] then None
         else (case exponentPart r2 of
                 None \<Rightarrow> None
               | Some e \<Rightarrow> Some (scale10 (digitsValue 10 (ip @ fp)) (e - int (length fp)))))"

definition jsNumber :: "string \<Rightarrow> jsnum" where
  "jsNumber input =
     (let s = trim input
      in if s = [] then Fin 0
         else if take 2 s = ''0x'' \<or> take 2 s = ''0X'' then nonDecimal 16 (drop 2 s)
         else if take 2 s = ''0o'' \<or> take 2 s = ''0O'' then nonDecimal 8 (drop 2 s)
         else if take 2 s = ''0b'' \<or> take 2 s = ''0B'' then nonDecimal 2 (drop 2 s)
         else if stripSign s = ''Infinity'' then (if isNegative s then NegInf else PosInf)
         else (case unsignedDecimal (stripSign s) of
                 None \<Rightarrow> NaN
               | Some v \<Rightarrow> toDouble (if isNegative s then - v else v)))"

subsection \<open>Writing numbers\<close>

text \<open>\<open>String(n)\<close> for a natural number \<open>n\<close>.\<close>

definition digitChar :: "nat \<Rightarrow> char" where
  "digitChar d = ''0123456789'' ! d"

function natToString :: "nat \<Rightarrow> string" where
  "natToString n =
     (if n < 10 then [digitChar n]
      else natToString (n div 10) @ [digitChar (n mod 10)])"
  by pat_completeness auto
termination
  by (relation "measure id") auto

declare natToString.simps [simp del]

text \<open>
  \<open>String(x)\<close> for a number \<open>x\<close>, as a template literal renders it (Number::toString of
  ECMAScript). For a positive double \<open>x\<close>, \<open>decade x\<close> is the \<open>n\<close> with
  \<open>10 ^ (n - 1) \<le> x < 10 ^ n\<close>, and \<open>shortestDigits\<close> looks for the least number \<open>k\<close> of digits such
  that a decimal \<open>s * 10 ^ (n - k)\<close> with \<open>k\<close> digits rounds to \<open>x\<close>, preferring the \<open>s\<close> nearest to
  \<open>x\<close>; 17 digits always suffice. An integer below \<open>2 ^ 53\<close> is written with all its digits,
  which is what the search gives for it.
\<close>

definition pow10 :: "int \<Rightarrow> rat" where
  "pow10 k = (if 0 \<le> k then 10 ^ nat k else 1 / 10 ^ nat (- k))"

function negDecade :: "rat \<Rightarrow> nat" where
  "negDecade x = (if x \<le> 0 \<or> 1 / 10 \<le> x then 0 else Suc (negDecade (10 * x)))"
  by pat_completeness auto
termination
proof (relation "measure (\<lambda>x. nat \<lceil>1 / x\<rceil>)")
  show "wf (measure (\<lambda>x. nat \<lceil>1 / x\<rceil>))"
    by simp
next
  fix x :: rat
  assume "\<not> (x \<le> 0 \<or> 1 / 10 \<le> x)"
  then have x: "0 < x" "x < 1" by simp_all
  define y where "y = 1 / x"
  have y: "1 < y" using x by (simp add: y_def)
  then have c: "2 \<le> \<lceil>y\<rceil>"
    by (simp add: le_ceiling_iff)
  then have two: "(2::rat) \<le> of_int \<lceil>y\<rceil>"
    by (metis of_int_le_iff of_int_numeral)
  have "y \<le> of_int \<lceil>y\<rceil>"
    by (rule le_of_int_ceiling)
  then have "y / 10 \<le> of_int \<lceil>y\<rceil> - 1"
    using two by linarith
  then have "y / 10 \<le> of_int (\<lceil>y\<rceil> - 1)"
    by simp
  then have le: "\<lceil>y / 10\<rceil> \<le> \<lceil>y\<rceil> - 1"
    by (simp only: ceiling_le_iff)
  have eq: "1 / (10 * x) = y / 10"
    by (simp add: y_def)
  have a: "\<lceil>1 / (10 * x)\<rceil> = \<lceil>y / 10\<rceil>"
    by (simp only: eq)
  have b: "\<lceil>1 / x\<rceil> = \<lceil>y\<rceil>"
    by (simp only: y_def)
  from a b le c have "nat \<lceil>1 / (10 * x)\<rceil> < nat \<lceil>1 / x\<rceil>"
    by linarith
  then show "(10 * x, x) \<in> measure (\<lambda>x. nat \<lceil>1 / x\<rceil>)"
    by (simp only: in_measure)
qed

declare negDecade.simps [simp del]

definition decade :: "rat \<Rightarrow> int" where
  "decade x =
     (if 1 \<le> x then int (length (natToString (nat \<lfloor>x\<rfloor>))) else - int (negDecade x))"

fun shortestDigits :: "nat \<Rightarrow> nat \<Rightarrow> rat \<Rightarrow> int \<Rightarrow> int \<times> int" where
  "shortestDigits 0 k x n = (\<lfloor>x / pow10 (n - int k)\<rfloor>, n)"
| "shortestDigits (Suc fuel) k x n =
     (let unit = pow10 (n - int k);
          lo = \<lfloor>x / unit\<rfloor>;
          vlo = of_int lo * unit;
          vhi = of_int (lo + 1) * unit;
          okLo = (toDouble vlo = Fin x);
          okHi = (toDouble vhi = Fin x);
          up = (if lo + 1 = 10 ^ k then (10 ^ (k - 1), n + 1) else (lo + 1, n))
      in if okLo \<and> okHi then
           (if x - vlo < vhi - x then (lo, n)
            else if vhi - x < x - vlo then up
            else if even lo then (lo, n) else up)
         else if okLo then (lo, n)
         else if okHi then up
         else shortestDigits fuel (Suc k) x n)"

definition renderDigits :: "string \<Rightarrow> int \<Rightarrow> string" where
  "renderDigits ds n =
     (let k = int (length ds)
      in if k \<le> n \<and> n \<le> 21 then ds @ replicate (nat (n - k)) CHR ''0''
         else if 0 < n \<and> n \<le> 21 then take (nat n) ds @ ''.'' @ drop (nat n) ds
         else if - 6 < n \<and> n \<le> 0 then ''0.'' @ replicate (nat (- n)) CHR ''0'' @ ds
         else (let e = n - 1;
                   es = (if e < 0 then CHR ''-'' else CHR ''+'') # natToString (nat \<bar>e\<bar>)
               in if k = 1 then ds @ ''e'' @ es
                  else hd ds # ''.'' @ tl ds @ ''e'' @ es))"

definition positiveToString :: "rat \<Rightarrow> string" where
  "positiveToString x =
     (if x = of_int \<lfloor>x\<rfloor> \<and> x < 2 ^ 53 then natToString (nat \<lfloor>x\<rfloor>)
      else (case shortestDigits 17 1 x (decade x) of
              (s, n) \<Rightarrow> renderDigits (natToString (nat s)) n))"

definition numberToString :: "jsnum \<Rightarrow> string" where
  "numberToString v =
     (case v of
        NaN \<Rightarrow> ''NaN''
      | PosInf \<Rightarrow> ''Infinity''
      | NegInf \<Rightarrow> ''-Infinity''
      | Fin x \<Rightarrow> if x = 0 then ''0''
                 else if x < 0 then CHR ''-'' # positiveToString (- x)
                 else positiveToString x)"

section \<open>parseField\<close>

text \<open>
  What a call does: it returns a value, it throws, or it never returns (a \<open>for\<close> loop whose
  counter stops advancing). What is thrown is kept as a value of \<open>error\<close>; its message text
  is a function of that value:
  \<^item> \<open>FieldCount n\<close>: \<open>Expected 5 fields (minute hour day month weekday), got n\<close>;
  \<^item> \<open>InvalidStep p\<close>: \<open>Invalid step: p\<close>;
  \<^item> \<open>InvalidRange p\<close>: \<open>Invalid range: p\<close>;
  \<^item> \<open>InvalidValue p\<close>: \<open>Invalid value: p\<close>;
  \<^item> \<open>OutOfRange v min max\<close>: \<open>Value v out of range [min-max]\<close>;
  \<^item> \<open>SetSizeExceeded\<close>: the \<open>RangeError\<close> \<open>Set maximum size exceeded\<close> that V8 throws
    from \<open>Set.prototype.add\<close>.
\<close>

datatype error =
    FieldCount nat
  | InvalidStep string
  | InvalidRange string
  | InvalidValue string
  | OutOfRange jsnum int int
  | SetSizeExceeded

definition message :: "error \<Rightarrow> string" where
  "message e =
     (case e of
        FieldCount n \<Rightarrow>
          ''Expected 5 fields (minute hour day month weekday), got '' @ natToString n
      | InvalidStep p \<Rightarrow> ''Invalid step: '' @ p
      | InvalidRange p \<Rightarrow> ''Invalid range: '' @ p
      | InvalidValue p \<Rightarrow> ''Invalid value: '' @ p
      | OutOfRange v mn mx \<Rightarrow>
          ''Value '' @ numberToString v @ '' out of range ['' @ numberToString (numOfInt mn)
            @ ''-'' @ numberToString (numOfInt mx) @ '']''
      | SetSizeExceeded \<Rightarrow> ''Set maximum size exceeded'')"

datatype 'a outcome = Returns 'a | Throws error | Hangs

fun bind :: "'a outcome \<Rightarrow> ('a \<Rightarrow> 'b outcome) \<Rightarrow> 'b outcome" where
  "bind (Returns x) f = f x"
| "bind (Throws e) f = Throws e"
| "bind Hangs f = Hangs"

record ParsedField =
  values_of :: "rat list"
  raw :: string

text \<open>A \<open>Set\<close> is kept as the list of its elements in insertion order. \<open>setInsert\<close> is the
  effect of \<open>add\<close> on the elements. In V8 a \<open>Set\<close> holds at most \<open>2 ^ 24\<close> elements:
  \<open>values.add(v)\<close> with a new \<open>v\<close> on a set of that size throws.\<close>

definition setInsert :: "'a list \<Rightarrow> 'a \<Rightarrow> 'a list" where
  "setInsert vs v = (if v \<in> set vs then vs else vs @ [v])"

definition maxSetSize :: nat where
  "maxSetSize = 16777216"

definition setAdd :: "jsnum list \<Rightarrow> jsnum \<Rightarrow> jsnum list outcome" where
  "setAdd vs v =
     (if v \<in> set vs \<or> length vs < maxSetSize then Returns (setInsert vs v)
      else Throws SetSizeExceeded)"

text \<open>
  \<open>for (let i = start; i <= end; i += step) values.add(i)\<close>, and with \<open>i++\<close> for a step
  of 1. The program runs the loop with a positive step only (1, or a step that passed the
  test \<open>step <= 0\<close>), so the update never takes \<open>i\<close> down. When it leaves \<open>i\<close> as it was
  (the sum rounds back to \<open>i\<close>, or \<open>i\<close> is infinite) the next pass finds the state of this
  one and the loop never ends. A NaN counter fails the test \<open>i <= end\<close>.
\<close>

function forLoop :: "jsnum \<Rightarrow> jsnum \<Rightarrow> jsnum \<Rightarrow> jsnum list \<Rightarrow> jsnum list outcome" where
  "forLoop i end step vs =
     (if \<not> jsLe i end then Returns vs
      else (case setAdd vs i of
              Returns vs' \<Rightarrow>
                if jsLe (jsAdd i step) i then Hangs else forLoop (jsAdd i step) end step vs'
            | Throws e \<Rightarrow> Throws e
            | Hangs \<Rightarrow> Hangs))"
  by pat_completeness auto
termination
proof (relation "measure (\<lambda>(i, e, s, vs). (maxSetSize - length vs) + card {v \<in> set vs. jsLe i v})")
  show "wf (measure (\<lambda>(i, e, s, vs). (maxSetSize - length vs) + card {v \<in> set vs. jsLe i v}))"
    by simp
next
  fix i e s :: jsnum and vs vs' :: "jsnum list"
  assume le: "\<not> \<not> jsLe i e" and add: "setAdd vs i = Returns vs'"
    and adv: "\<not> jsLe (jsAdd i s) i"
  define j where "j = jsAdd i s"
  have refl: "jsLe i i"
    using le by (cases i; cases e) simp_all
  have up: "jsLe i v" if "jsLe j v" for v
    using that adv refl unfolding j_def[symmetric]
    by (cases i; cases j; cases v) simp_all
  have notj: "\<not> jsLe j i"
    using adv by (simp add: j_def)
  have sub: "{v \<in> set vs. jsLe j v} \<subseteq> {v \<in> set vs. jsLe i v}"
    using up by blast
  have "(maxSetSize - length vs') + card {v \<in> set vs'. jsLe j v}
      < (maxSetSize - length vs) + card {v \<in> set vs. jsLe i v}"
  proof (cases "i \<in> set vs")
    case True
    then have vs': "vs' = vs"
      using add by (simp add: setAdd_def setInsert_def)
    have "{v \<in> set vs. jsLe j v} \<subset> {v \<in> set vs. jsLe i v}"
      using sub True refl notj by blast
    then have "card {v \<in> set vs. jsLe j v} < card {v \<in> set vs. jsLe i v}"
      by (intro psubset_card_mono) simp_all
    then show ?thesis
      by (simp add: vs')
  next
    case False
    then have room: "length vs < maxSetSize" and vs': "vs' = vs @ [i]"
      using add by (auto simp: setAdd_def setInsert_def split: if_splits)
    have "{v \<in> set vs'. jsLe j v} = {v \<in> set vs. jsLe j v}"
      using notj by (auto simp: vs')
    moreover have "card {v \<in> set vs. jsLe j v} \<le> card {v \<in> set vs. jsLe i v}"
      using sub by (intro card_mono) simp_all
    ultimately show ?thesis
      using room by (simp add: vs')
  qed
  then show "((jsAdd i s, e, s, vs'), (i, e, s, vs))
      \<in> measure (\<lambda>(i, e, s, vs). (maxSetSize - length vs) + card {v \<in> set vs. jsLe i v})"
    by (simp add: j_def)
qed

declare forLoop.simps [simp del]

text \<open>\<open>const [a, b] = xs.map(Number)\<close>: a missing element is \<open>undefined\<close>, which every use
  below (\<open>isNaN\<close>, \<open><=\<close>) treats as NaN.\<close>

definition firstTwo :: "jsnum list \<Rightarrow> jsnum \<times> jsnum" where
  "firstTwo xs =
     (case xs of
        a # b # _ \<Rightarrow> (a, b)
      | [a] \<Rightarrow> (a, NaN)
      | [] \<Rightarrow> (NaN, NaN))"

text \<open>The body of \<open>for (const part of parts)\<close> in \<open>parseField\<close>. A part that includes
  \<open>/\<close> splits into at least two pieces, so the last case of the split is never taken; were
  it taken, \<open>stepStr\<close> would be \<open>undefined\<close>, \<open>parseInt\<close> would give NaN, and the same
  error would be thrown.\<close>

definition parseTerm :: "string \<Rightarrow> int \<Rightarrow> int \<Rightarrow> jsnum list \<Rightarrow> jsnum list outcome" where
  "parseTerm part mn mx vs =
     (if part = ''*'' then forLoop (numOfInt mn) (numOfInt mx) (Fin 1) vs
      else if jsIncludes part CHR ''/'' then
        (case jsSplit CHR ''/'' part of
           rangeStr # stepStr # _ \<Rightarrow>
             (let step = parseInt stepStr (Some 10)
              in if isNaN step \<or> jsLe step (Fin 0) then Throws (InvalidStep part)
                 else
                   (let (start, end) =
                      (if rangeStr \<noteq> ''*'' then
                         (if jsIncludes rangeStr CHR ''-''
                          then firstTwo (map jsNumber (jsSplit CHR ''-'' rangeStr))
                          else (parseInt rangeStr (Some 10), numOfInt mx))
                       else (numOfInt mn, numOfInt mx))
                    in forLoop start end step vs))
         | _ \<Rightarrow> Throws (InvalidStep part))
      else if jsIncludes part CHR ''-'' then
        (let (a, b) = firstTwo (map jsNumber (jsSplit CHR ''-'' part))
         in if isNaN a \<or> isNaN b then Throws (InvalidRange part)
            else forLoop a b (Fin 1) vs)
      else
        (let num = parseInt part (Some 10)
         in if isNaN num then Throws (InvalidValue part)
            else setAdd vs num))"

fun parseTerms :: "string list \<Rightarrow> int \<Rightarrow> int \<Rightarrow> jsnum list \<Rightarrow> jsnum list outcome" where
  "parseTerms [] mn mx vs = Returns vs"
| "parseTerms (part # parts) mn mx vs =
     bind (parseTerm part mn mx vs) (\<lambda>vs'. parseTerms parts mn mx vs')"

text \<open>
  \<open>Array.from(values).sort((a, b) => a - b)\<close>: the elements of a set are distinct and none
  is NaN, so the comparison never gives 0 or NaN and the result is the ascending order of
  \<open><\<close>, which \<open>numKey\<close> follows.
\<close>

definition numKey :: "jsnum \<Rightarrow> nat \<times> rat" where
  "numKey v = (case v of NegInf \<Rightarrow> (0, 0) | Fin r \<Rightarrow> (1, r) | PosInf \<Rightarrow> (2, 0) | NaN \<Rightarrow> (3, 0))"

text \<open>The check after the loop: the first element of the sorted array outside the bounds
  is thrown.\<close>

definition outOfRange :: "int \<Rightarrow> int \<Rightarrow> jsnum \<Rightarrow> bool" where
  "outOfRange mn mx v = (jsLt v (numOfInt mn) \<or> jsLt (numOfInt mx) v)"

text \<open>The array that is returned passed the check, so its elements are finite; \<open>finValues\<close>
  reads them as rationals.\<close>

fun finValues :: "jsnum list \<Rightarrow> rat list" where
  "finValues [] = []"
| "finValues (Fin r # vs) = r # finValues vs"
| "finValues (_ # vs) = finValues vs"

definition parseField :: "string \<Rightarrow> int \<Rightarrow> int \<Rightarrow> ParsedField outcome" where
  "parseField rawText mn mx =
     bind (parseTerms (jsSplit CHR '','' rawText) mn mx [])
       (\<lambda>vs. let sorted = sort_key numKey vs
             in (case find (outOfRange mn mx) sorted of
                   Some v \<Rightarrow> Throws (OutOfRange v mn mx)
                 | None \<Rightarrow> Returns \<lparr>values_of = finValues sorted, raw = rawText\<rparr>))"

section \<open>parseCron and validateCron\<close>

record CronParts =
  minute :: string
  hour :: string
  dayOfMonth :: string
  month :: string
  dayOfWeek :: string

definition MONTH_MAP :: "(string \<times> nat) list" where
  "MONTH_MAP =
     [(''jan'', 1), (''feb'', 2), (''mar'', 3), (''apr'', 4), (''may'', 5), (''jun'', 6),
      (''jul'', 7), (''aug'', 8), (''sep'', 9), (''oct'', 10), (''nov'', 11), (''dec'', 12)]"

definition DAY_MAP :: "(string \<times> nat) list" where
  "DAY_MAP =
     [(''sun'', 0), (''mon'', 1), (''tue'', 2), (''wed'', 3), (''thu'', 4), (''fri'', 5),
      (''sat'', 6)]"

definition replaceNames :: "string \<Rightarrow> (string \<times> nat) list \<Rightarrow> string" where
  "replaceNames field names =
     foldl (\<lambda>result (name, num). replaceAll name (natToString num) result)
       (toLowerCase field) names"

definition parseCron :: "string \<Rightarrow> CronParts outcome" where
  "parseCron expr =
     (let parts = splitWhiteSpace (trim expr)
      in (case parts of
            [p0, p1, p2, p3, p4] \<Rightarrow>
              Returns \<lparr>minute = p0, hour = p1, dayOfMonth = p2,
                       month = replaceNames p3 MONTH_MAP,
                       dayOfWeek = replaceNames p4 DAY_MAP\<rparr>
          | _ \<Rightarrow> Throws (FieldCount (length parts))))"

record Validation =
  valid :: bool
  error :: "error option"

text \<open>The five \<open>parseField\<close> calls that \<open>validateCron\<close>, \<open>explainCron\<close> and \<open>getNextRuns\<close>
  make one after the other; a throw or a loop that does not end stops the sequence.\<close>

definition parseFields ::
  "CronParts \<Rightarrow>
   (ParsedField \<times> ParsedField \<times> ParsedField \<times> ParsedField \<times> ParsedField) outcome" where
  "parseFields parts =
     bind (parseField (minute parts) 0 59) (\<lambda>f0.
     bind (parseField (hour parts) 0 23) (\<lambda>f1.
     bind (parseField (dayOfMonth parts) 1 31) (\<lambda>f2.
     bind (parseField (month parts) 1 12) (\<lambda>f3.
     bind (parseField (dayOfWeek parts) 0 7) (\<lambda>f4.
     Returns (f0, f1, f2, f3, f4))))))"

text \<open>\<open>try { ...; return {valid: true} } catch (e) { return {valid: false, error: e.message} }\<close>.\<close>

definition validateCron :: "string \<Rightarrow> Validation outcome" where
  "validateCron expr =
     (case bind (parseCron expr) parseFields of
        Returns _ \<Rightarrow> Returns \<lparr>valid = True, error = None\<rparr>
      | Throws e \<Rightarrow> Returns \<lparr>valid = False, error = Some e\<rparr>
      | Hangs \<Rightarrow> Hangs)"

section \<open>explainField and explainCron\<close>

definition MONTH_NAMES :: "string list" where
  "MONTH_NAMES =
     [[], ''January'', ''February'', ''March'', ''April'', ''May'', ''June'',
      ''July'', ''August'', ''September'', ''October'', ''November'', ''December'']"

definition DAY_NAMES :: "string list" where
  "DAY_NAMES =
     [''Sunday'', ''Monday'', ''Tuesday'', ''Wednesday'', ''Thursday'', ''Friday'',
      ''Saturday'']"

text \<open>\<open>names[i]\<close> for a number \<open>i\<close>: the element when \<open>i\<close> is an integer that indexes the
  array, \<open>undefined\<close> (\<open>None\<close>) for every other number. \<open>template\<close> is what a template
  literal makes of the element.\<close>

definition nameAt :: "string list \<Rightarrow> jsnum \<Rightarrow> string option" where
  "nameAt names i =
     (case i of
        Fin r \<Rightarrow>
          if r = of_int \<lfloor>r\<rfloor> \<and> 0 \<le> r \<and> r < of_nat (length names)
          then Some (names ! nat \<lfloor>r\<rfloor>) else None
      | _ \<Rightarrow> None)"

definition template :: "string option \<Rightarrow> string" where
  "template v = (case v of None \<Rightarrow> ''undefined'' | Some s \<Rightarrow> s)"

text \<open>\<open>names ? names[parseInt(a)] : a\<close> inside a template literal.\<close>

definition boundName :: "string list option \<Rightarrow> string \<Rightarrow> string" where
  "boundName names a =
     (case names of
        Some ns \<Rightarrow> template (nameAt ns (parseInt a None))
      | None \<Rightarrow> a)"

text \<open>The body of \<open>for (const part of parts)\<close> in \<open>explainField\<close>: the description pushed
  for one part. The cases for a split with fewer than two pieces are never taken (the part
  includes the separator); they render the missing pieces as \<open>undefined\<close>, as the template
  literals would.\<close>

definition explainPart :: "string list option \<Rightarrow> string \<Rightarrow> string" where
  "explainPart names part =
     (if jsIncludes part CHR ''/'' then
        (case jsSplit CHR ''/'' part of
           rangeStr # step # _ \<Rightarrow>
             if rangeStr = ''*'' then ''every '' @ step
             else if jsIncludes rangeStr CHR ''-'' then
               (case jsSplit CHR ''-'' rangeStr of
                  a # b # _ \<Rightarrow>
                    ''every '' @ step @ '' from '' @ boundName names a
                      @ '' through '' @ boundName names b
                | _ \<Rightarrow> ''every '' @ step @ '' from undefined through undefined'')
             else ''every '' @ step @ '' starting at '' @ boundName names rangeStr
         | _ \<Rightarrow> ''every undefined'')
      else if jsIncludes part CHR ''-'' then
        (case jsSplit CHR ''-'' part of
           a # b # _ \<Rightarrow> boundName names a @ '' through '' @ boundName names b
         | _ \<Rightarrow> ''undefined through undefined'')
      else
        (case names of
           Some ns \<Rightarrow>
             (case nameAt ns (parseInt part (Some 10)) of
                Some s \<Rightarrow> if s \<noteq> [] then s else part
              | None \<Rightarrow> part)
         | None \<Rightarrow> part))"

definition explainField :: "string \<Rightarrow> int \<Rightarrow> int \<Rightarrow> string list option \<Rightarrow> string" where
  "explainField rawText mn mx names =
     (if rawText = ''*'' then ''every''
      else join '', '' (map (explainPart names) (jsSplit CHR '','' rawText)))"

text \<open>The function mapped over \<open>parts.hour.split(",")\<close>.\<close>

definition hourVal :: "string \<Rightarrow> string" where
  "hourVal h =
     (if jsIncludes h CHR ''-'' then h
      else (let n = parseInt h (Some 10);
                ampm = (if jsLe (Fin 12) n then ''PM'' else ''AM'');
                h12 = (if n = Fin 0 then Fin 12 else if jsLt (Fin 12) n then jsSub n (Fin 12) else n)
            in numberToString h12 @ '':00 '' @ ampm))"

definition minuteClause :: "string \<Rightarrow> string" where
  "minuteClause m =
     (if m = ''*'' then ''every minute''
      else if startsWith m ''*/'' then ''every '' @ drop 2 m @ '' minutes''
      else ''at minute '' @ explainField m 0 59 None)"

definition hourClause :: "string \<Rightarrow> string" where
  "hourClause h =
     (if h = ''*'' then ''of every hour''
      else if startsWith h ''*/'' then ''every '' @ drop 2 h @ '' hours''
      else ''at '' @ join '', '' (map hourVal (jsSplit CHR '','' h)))"

definition dayOfMonthClause :: "string \<Rightarrow> string list" where
  "dayOfMonthClause d = (if d \<noteq> ''*'' then [''on day '' @ explainField d 1 31 None] else [])"

definition monthClause :: "string \<Rightarrow> string list" where
  "monthClause m =
     (if m \<noteq> ''*'' then [''in '' @ explainField m 1 12 (Some MONTH_NAMES)] else [])"

definition dayOfWeekClause :: "string \<Rightarrow> string list" where
  "dayOfWeekClause d =
     (if d \<noteq> ''*'' then [''on '' @ explainField d 0 7 (Some DAY_NAMES)] else [])"

definition explainCron :: "string \<Rightarrow> string outcome" where
  "explainCron expr =
     bind (parseCron expr) (\<lambda>parts.
     bind (parseFields parts) (\<lambda>_.
     Returns (join '' ''
       ([minuteClause (minute parts), hourClause (hour parts)]
        @ dayOfMonthClause (dayOfMonth parts)
        @ monthClause (month parts)
        @ dayOfWeekClause (dayOfWeek parts)))))"

section \<open>Dates\<close>

text \<open>
  A \<open>Date\<close> is kept as its local calendar fields, named after the getters that read them
  (\<open>getMonth\<close> counts from 0). The local time zone is taken to have a constant offset from
  UTC, so that local time has neither gaps nor repeated hours, and the time value of a date is
  counted in local milliseconds. The setters rebuild the date from fields that may overflow,
  as ECMAScript's MakeTime, MakeDay and have it: an overflowing field carries into the next
  coarser one. Their arguments are natural numbers: the source only passes a getter's value
  plus one, or the constants 0 and 1. Years are unbounded integers; the limits of the time
  values a \<open>Date\<close> can hold are not modelled.
\<close>

record JsDate =
  getFullYear :: int
  getMonth :: nat
  getDate :: nat
  getHours :: nat
  getMinutes :: nat
  getSeconds :: nat
  getMilliseconds :: nat

definition inLeapYear :: "int \<Rightarrow> bool" where
  "inLeapYear y = ((y mod 4 = 0 \<and> y mod 100 \<noteq> 0) \<or> y mod 400 = 0)"

definition daysInMonth :: "int \<Rightarrow> nat \<Rightarrow> nat" where
  "daysInMonth y m =
     (if m = 1 then (if inLeapYear y then 29 else 28)
      else if m = 3 \<or> m = 5 \<or> m = 8 \<or> m = 10 then 30
      else 31)"

text \<open>ECMAScript's DayFromYear: the day number, counted from 1 January 1970, of the first
  day of year \<open>y\<close>.\<close>

definition dayFromYear :: "int \<Rightarrow> int" where
  "dayFromYear y =
     365 * (y - 1970) + (y - 1969) div 4 - (y - 1901) div 100 + (y - 1601) div 400"

definition daysBeforeMonth :: "int \<Rightarrow> nat \<Rightarrow> nat" where
  "daysBeforeMonth y m = sum_list (map (daysInMonth y) [0..<m])"

text \<open>The day number of the first day of month \<open>mo\<close> of year \<open>y\<close>, for a month index that
  may exceed 11 (MakeDay).\<close>

definition monthStart :: "int \<Rightarrow> nat \<Rightarrow> int" where
  "monthStart y mo =
     dayFromYear (y + int (mo div 12)) + int (daysBeforeMonth (y + int (mo div 12)) (mo mod 12))"

definition dayNumber :: "JsDate \<Rightarrow> int" where
  "dayNumber d = monthStart (getFullYear d) (getMonth d) + int (getDate d) - 1"

definition msPerDay :: nat where
  "msPerDay = 86400000"

definition makeTime :: "nat \<Rightarrow> nat \<Rightarrow> nat \<Rightarrow> nat \<Rightarrow> nat" where
  "makeTime h mi s msec = ((h * 60 + mi) * 60 + s) * 1000 + msec"

definition timeOfDay :: "JsDate \<Rightarrow> nat" where
  "timeOfDay d = makeTime (getHours d) (getMinutes d) (getSeconds d) (getMilliseconds d)"

text \<open>The time value of a date, in milliseconds of local time since 1 January 1970.\<close>

definition timeValue :: "JsDate \<Rightarrow> int" where
  "timeValue d = dayNumber d * int msPerDay + int (timeOfDay d)"

text \<open>\<open>getDay()\<close>: ECMAScript's WeekDay, 0 for Sunday; 1 January 1970 was a Thursday.\<close>

definition getDay :: "JsDate \<Rightarrow> nat" where
  "getDay d = nat ((dayNumber d + 4) mod 7)"

definition validDate :: "JsDate \<Rightarrow> bool" where
  "validDate d =
     (getMonth d < 12 \<and> 1 \<le> getDate d \<and> getDate d \<le> daysInMonth (getFullYear d) (getMonth d)
      \<and> getHours d < 24 \<and> getMinutes d < 60 \<and> getSeconds d < 60 \<and> getMilliseconds d < 1000)"

text \<open>Day \<open>d\<close> of month \<open>m\<close> of year \<open>y\<close>, for a day that may lie after the end of the month:
  whole months are taken off until it fits.\<close>

function rollDays :: "int \<Rightarrow> nat \<Rightarrow> nat \<Rightarrow> int \<times> nat \<times> nat" where
  "rollDays y m d =
     (if m < 12 \<and> daysInMonth y m < d then
        (if m = 11 then rollDays (y + 1) 0 (d - daysInMonth y m)
         else rollDays y (m + 1) (d - daysInMonth y m))
      else (y, m, d))"
  by pat_completeness auto
termination
  by (relation "measure (\<lambda>(y, m, d). d)") (auto simp: daysInMonth_def)

declare rollDays.simps [simp del]

text \<open>The date with the given fields. Day 0 of a month is the last day of the month
  before it.\<close>

definition makeDate :: "int \<Rightarrow> nat \<Rightarrow> nat \<Rightarrow> nat \<Rightarrow> nat \<Rightarrow> nat \<Rightarrow> nat \<Rightarrow> JsDate" where
  "makeDate y mo dt h mi s msec =
     (let total = makeTime h mi s msec;
          tod = total mod msPerDay;
          ym = y + int (mo div 12);
          mn = mo mod 12;
          days = dt + total div msPerDay;
          (y', m', d') =
            (if days = 0 then
               (if mn = 0 then (ym - 1, 11, 31) else (ym, mn - 1, daysInMonth ym (mn - 1)))
             else rollDays ym mn days)
      in \<lparr>getFullYear = y', getMonth = m', getDate = d',
          getHours = tod div 3600000, getMinutes = tod div 60000 mod 60,
          getSeconds = tod div 1000 mod 60, getMilliseconds = tod mod 1000\<rparr>)"

definition setSeconds :: "JsDate \<Rightarrow> nat \<Rightarrow> nat \<Rightarrow> JsDate" where
  "setSeconds d s msec =
     makeDate (getFullYear d) (getMonth d) (getDate d) (getHours d) (getMinutes d) s msec"

definition setMinutes :: "JsDate \<Rightarrow> nat \<Rightarrow> JsDate" where
  "setMinutes d mi =
     makeDate (getFullYear d) (getMonth d) (getDate d) (getHours d) mi (getSeconds d)
       (getMilliseconds d)"

definition setHours :: "JsDate \<Rightarrow> nat \<Rightarrow> nat \<Rightarrow> nat \<Rightarrow> nat \<Rightarrow> JsDate" where
  "setHours d h mi s msec = makeDate (getFullYear d) (getMonth d) (getDate d) h mi s msec"

definition setDate :: "JsDate \<Rightarrow> nat \<Rightarrow> JsDate" where
  "setDate d dt =
     makeDate (getFullYear d) (getMonth d) dt (getHours d) (getMinutes d) (getSeconds d)
       (getMilliseconds d)"

definition setMonth :: "JsDate \<Rightarrow> nat \<Rightarrow> nat \<Rightarrow> JsDate" where
  "setMonth d mo dt =
     makeDate (getFullYear d) mo dt (getHours d) (getMinutes d) (getSeconds d)
       (getMilliseconds d)"

section \<open>getNextRuns\<close>

text \<open>What \<open>getNextRuns\<close> computes before its loop: the value arrays of the five fields, the
  set of weekdays with 7 folded onto 0, and the two wildcard flags. The set is made from an
  array that came out of a \<open>Set\<close>, so it stays within the size a \<open>Set\<close> can have.\<close>

record Schedule =
  minutesOf :: "rat list"
  hoursOf :: "rat list"
  daysOfMonth :: "rat list"
  months :: "rat list"
  dowSet :: "rat list"
  domWild :: bool
  dowWild :: bool

text \<open>\<open>xs.includes(n)\<close> and \<open>set.has(n)\<close> for a number \<open>n\<close> read from a date.\<close>

definition numIncludes :: "rat list \<Rightarrow> nat \<Rightarrow> bool" where
  "numIncludes xs n = (of_nat n \<in> set xs)"

definition schedule :: "CronParts \<Rightarrow> ParsedField \<times> ParsedField \<times> ParsedField \<times> ParsedField \<times> ParsedField \<Rightarrow> Schedule" where
  "schedule parts fs =
     (case fs of (f0, f1, f2, f3, f4) \<Rightarrow>
        \<lparr>minutesOf = values_of f0, hoursOf = values_of f1, daysOfMonth = values_of f2,
         months = values_of f3,
         dowSet = foldl setInsert [] (map (\<lambda>d. if d = 7 then 0 else d) (values_of f4)),
         domWild = (dayOfMonth parts = ''*''),
         dowWild = (dayOfWeek parts = ''*'')\<rparr>)"

text \<open>The day-of-month and day-of-week decision of the loop.\<close>

definition dayMatch :: "Schedule \<Rightarrow> nat \<Rightarrow> nat \<Rightarrow> bool" where
  "dayMatch sch dom' dow =
     (if domWild sch \<and> dowWild sch then True
      else if domWild sch then numIncludes (dowSet sch) dow
      else if dowWild sch then numIncludes (daysOfMonth sch) dom'
      else numIncludes (daysOfMonth sch) dom' \<or> numIncludes (dowSet sch) dow)"

text \<open>One pass through the body of the \<open>while\<close> loop: the new cursor and the new results.\<close>

definition loopBody :: "Schedule \<Rightarrow> JsDate \<Rightarrow> JsDate list \<Rightarrow> JsDate \<times> JsDate list" where
  "loopBody sch current results =
     (let m = getMinutes current;
          h = getHours current;
          dom' = getDate current;
          mon = getMonth current + 1;
          dow = getDay current
      in if \<not> numIncludes (months sch) mon then
           (setHours (setMonth current (getMonth current + 1) 1) 0 0 0 0, results)
         else if \<not> numIncludes (hoursOf sch) h then
           (setMinutes (setHours current (getHours current + 1) 0 0 0) 0, results)
         else if \<not> dayMatch sch dom' dow then
           (setHours (setDate current (getDate current + 1)) 0 0 0 0, results)
         else
           (setMinutes current (getMinutes current + 1),
            if numIncludes (minutesOf sch) m then results @ [current] else results))"

definition maxIterations :: nat where
  "maxIterations = 525960"

function searchLoop :: "Schedule \<Rightarrow> nat \<Rightarrow> JsDate \<Rightarrow> JsDate list \<Rightarrow> nat \<Rightarrow> JsDate list" where
  "searchLoop sch count current results iterations =
     (if length results < count \<and> iterations < maxIterations then
        (case loopBody sch current results of
           (current', results') \<Rightarrow> searchLoop sch count current' results' (iterations + 1))
      else results)"
  by pat_completeness auto
termination
  by (relation "measure (\<lambda>(sch, count, current, results, iterations). maxIterations - iterations)")
    auto

declare searchLoop.simps [simp del]

text \<open>The cursor the search starts from: \<open>now\<close> with seconds and milliseconds cleared, one
  minute later.\<close>

definition startCursor :: "JsDate \<Rightarrow> JsDate" where
  "startCursor now =
     (let current = setSeconds now 0 0
      in setMinutes current (getMinutes current + 1))"

text \<open>\<open>getNextRuns\<close>, with the value of \<open>new Date()\<close> as its first argument. \<open>count\<close> is
  a number of results, a natural number.\<close>

definition getNextRuns :: "JsDate \<Rightarrow> string \<Rightarrow> nat \<Rightarrow> JsDate list outcome" where
  "getNextRuns now expr count =
     bind (parseCron expr) (\<lambda>parts.
     bind (parseFields parts) (\<lambda>fs.
     Returns (searchLoop (schedule parts fs) count (startCursor now) [] 0)))"

section \<open>Notions used in the statements\<close>

text \<open>An outcome that is a returned value.\<close>

definition returned :: "'a outcome \<Rightarrow> bool" where
  "returned r = (case r of Returns _ \<Rightarrow> True | _ \<Rightarrow> False)"

text \<open>The five \<open>parseField\<close> calls of \<open>validateCron\<close>, in the order of the source.\<close>

definition fieldChecks :: "CronParts \<Rightarrow> ParsedField outcome list" where
  "fieldChecks parts =
     [parseField (minute parts) 0 59, parseField (hour parts) 0 23,
      parseField (dayOfMonth parts) 1 31, parseField (month parts) 1 12,
      parseField (dayOfWeek parts) 0 7]"

text \<open>A stepped term \<open>A-B/S\<close> or \<open>A/S\<close> whose step passes the test of the source (it is not
  NaN and not \<open><= 0\<close>) and whose base is not \<open>*\<close> and does not read as numbers: \<open>Number\<close>
  gives NaN for \<open>A\<close> or for \<open>B\<close>, or \<open>parseInt\<close> gives NaN for \<open>A\<close>.\<close>

definition nonNumericStep :: "string \<Rightarrow> bool" where
  "nonNumericStep part =
     (jsIncludes part CHR ''/'' \<and>
      (case jsSplit CHR ''/'' part of
         rangeStr # stepStr # _ \<Rightarrow>
           \<not> isNaN (parseInt stepStr (Some 10)) \<and> \<not> jsLe (parseInt stepStr (Some 10)) (Fin 0)
           \<and> rangeStr \<noteq> ''*''
           \<and> (if jsIncludes rangeStr CHR ''-''
                then (case firstTwo (map jsNumber (jsSplit CHR ''-'' rangeStr)) of
                        (a, b) \<Rightarrow> isNaN a \<or> isNaN b)
                else isNaN (parseInt rangeStr (Some 10)))
       | _ \<Rightarrow> False))"

text \<open>A date that the loop may record: its month, hour, day and minute all pass.\<close>

definition matches :: "Schedule \<Rightarrow> JsDate \<Rightarrow> bool" where
  "matches sch d =
     (numIncludes (months sch) (getMonth d + 1) \<and> numIncludes (hoursOf sch) (getHours d)
      \<and> dayMatch sch (getDate d) (getDay d) \<and> numIncludes (minutesOf sch) (getMinutes d))"

section \<open>Integers that are doubles\<close>

text \<open>An integer of magnitude at most \<open>2 ^ 53\<close> is a double: rounding leaves it as it is.\<close>

lemma floor_rat_numeral_div:
  "\<lfloor>(numeral a :: rat) / numeral b\<rfloor> = numeral a div numeral b"
  by (metis floor_divide_of_int_eq of_int_numeral)

lemma log2floor_bounds: "1 \<le> n \<Longrightarrow> 2 ^ log2floor n \<le> n \<and> n < 2 ^ (log2floor n + 1)"
proof (induction n rule: log2floor.induct)
  case (1 n)
  show ?case
  proof (cases "n < 2")
    case True
    with "1.prems" have "n = 1" by simp
    then show ?thesis by (simp add: log2floor.simps)
  next
    case False
    then have h: "1 \<le> n div 2" by simp
    have e: "log2floor n = Suc (log2floor (n div 2))"
      using False by (subst log2floor.simps) simp
    from "1.IH"[OF False h]
    have "2 ^ log2floor (n div 2) \<le> n div 2" "n div 2 < 2 ^ (log2floor (n div 2) + 1)"
      by simp_all
    then show ?thesis
      unfolding e by simp linarith
  qed
qed

lemma roundHalfEven_of_int: "roundHalfEven (of_int k) = k"
  by (simp add: roundHalfEven_def)

lemma roundMagnitude_int:
  assumes "0 < n" and "n \<le> 2 ^ 53"
  shows "roundMagnitude (of_int n) = Fin (of_int n)"
proof -
  define L where "L = log2floor (nat n)"
  have b: "2 ^ L \<le> nat n" "nat n < 2 ^ (L + 1)"
    using log2floor_bounds[of "nat n"] assms(1) by (simp_all add: L_def)
  have "int (2 ^ L) \<le> n"
    using b(1) assms(1) by linarith
  then have p53: "(2::int) ^ L \<le> 2 ^ 53"
    using assms(2) by simp
  have one: "(1::int) < 2"
    by simp
  have L53: "L \<le> 53"
    by (rule power_le_imp_le_exp[OF one p53])
  have be: "binaryExponent (of_int n) = int L"
    using assms(1) by (simp add: binaryExponent_def L_def)
  have "(of_int n :: rat) \<le> of_int (2 ^ 53)"
    using assms(2) by (simp only: of_int_le_iff)
  then have small: "(of_int n :: rat) < 2 ^ 1024"
    by simp
  show ?thesis
  proof (cases "L = 53")
    case True
    with \<open>int (2 ^ L) \<le> n\<close> assms(2) have n: "n = 2 ^ 53"
      by simp
    have "max (int L - 52) (- 1074) = 1" using True by simp
    moreover have "(of_int n :: rat) / pow2 1 = of_int (2 ^ 52)"
      by (simp add: n pow2_def)
    ultimately show ?thesis
      unfolding roundMagnitude_def Let_def be
      by (simp only: roundHalfEven_of_int) (simp add: pow2_def n)
  next
    case False
    with L53 have L: "L \<le> 52" by simp
    define k where "k = 52 - L"
    have q: "max (int L - 52) (- 1074) = - int k"
      using L by (simp add: k_def)
    have p: "pow2 (- int k) = 1 / 2 ^ k"
      by (simp add: pow2_def)
    have d: "(of_int n :: rat) / pow2 (- int k) = of_int (n * 2 ^ k)"
      by (simp add: p)
    have "of_int (roundHalfEven (of_int n / pow2 (- int k))) * pow2 (- int k) = (of_int n :: rat)"
      unfolding d roundHalfEven_of_int by (simp add: p)
    then show ?thesis
      unfolding roundMagnitude_def Let_def be q using small by simp
  qed
qed

lemma toDouble_of_int:
  assumes "- (2 ^ 53) \<le> n" and "n \<le> 2 ^ 53"
  shows "toDouble (of_int n) = Fin (of_int n)"
proof -
  consider "n = 0" | "0 < n" | "n < 0" by linarith
  then show ?thesis
  proof cases
    case 1
    then show ?thesis by (simp add: toDouble_def)
  next
    case 2
    then show ?thesis
      using roundMagnitude_int[OF 2 assms(2)] by (simp add: toDouble_def)
  next
    case 3
    then have "0 < - n" "- n \<le> 2 ^ 53" using assms(1) by simp_all
    from roundMagnitude_int[OF this] 3 show ?thesis
      by (simp add: toDouble_def jsNegate_def)
  qed
qed

lemma toDouble_numeral:
  "numeral k \<le> (9007199254740992 :: int) \<Longrightarrow> toDouble (numeral k) = Fin (numeral k)"
  using toDouble_of_int[of "numeral k"] by simp

lemma toDouble_neg_numeral:
  "numeral k \<le> (9007199254740992 :: int) \<Longrightarrow> toDouble (- numeral k) = Fin (- numeral k)"
  using toDouble_of_int[of "- numeral k"] by simp

lemma toDouble_0: "toDouble 0 = Fin 0"
  by (simp add: toDouble_def)

lemma toDouble_1: "toDouble 1 = Fin 1"
  using toDouble_of_int[of 1] by simp

section \<open>Rules for evaluating the definitions on concrete inputs\<close>

lemmas double_eval =
  toDouble_def roundMagnitude_def binaryExponent_def roundHalfEven_def pow2_def
  log2floor.simps negExponent.simps jsNegate_def Let_def floor_rat_numeral_div

lemmas small_int_eval = toDouble_numeral toDouble_neg_numeral toDouble_0 toDouble_1

lemmas parse_eval =
  parseTerm_def jsIncludes_def parseInt_def isWhiteSpace_def stripSign_def isSign_def
  digitOf_def digitsValue_def isNegative_def setAdd_def setInsert_def maxSetSize_def
  outOfRange_def jsLt_def forLoop.simps firstTwo_def jsNumber_def trim_def unsignedDecimal_def
  exponentPart_def scale10_def nonDecimal_def isNaN_def numOfInt_def Let_def small_int_eval

lemmas field_eval = parseField_def numKey_def parse_eval

lemmas names_eval =
  replaceNames_def toLowerCase_def lowerChar_def MONTH_MAP_def DAY_MAP_def
  replaceAll.simps natToString.simps digitChar_def

lemmas explain_eval =
  explainField_def explainPart_def boundName_def nameAt_def template_def DAY_NAMES_def
  MONTH_NAMES_def hourVal_def hourClause_def minuteClause_def dayOfMonthClause_def
  monthClause_def dayOfWeekClause_def startsWith_def numberToString_def positiveToString_def
  natToString.simps jsLt_def jsSub_def jsNegate_def
  jsIncludes_def parseInt_def isWhiteSpace_def stripSign_def isSign_def digitOf_def
  digitsValue_def isNegative_def Let_def digitChar_def small_int_eval

lemmas date_eval =
  setMinutes_def setHours_def setDate_def setMonth_def setSeconds_def makeDate_def
  makeTime_def msPerDay_def rollDays.simps daysInMonth_def inLeapYear_def getDay_def
  dayNumber_def monthStart_def dayFromYear_def daysBeforeMonth_def upt_rec

section \<open>Properties of parseField\<close>

lemma jsSplit_no_sep: "sep \<notin> set s \<Longrightarrow> jsSplit sep s = [s]"
  by (induction s) auto

lemma jsSplit_nonempty: "jsSplit sep s \<noteq> []"
  by (induction s) (auto split: list.splits)

lemma set_setInsert: "set (setInsert vs v) = insert v (set vs)"
  by (auto simp: setInsert_def)

lemma distinct_setInsert: "distinct vs \<Longrightarrow> distinct (setInsert vs v)"
  by (simp add: setInsert_def)

lemma setAdd_fresh:
  "v \<notin> set vs \<Longrightarrow> length vs < maxSetSize \<Longrightarrow> setAdd vs v = Returns (vs @ [v])"
  by (simp add: setAdd_def setInsert_def)

lemma setAdd_full:
  "v \<notin> set vs \<Longrightarrow> length vs = maxSetSize \<Longrightarrow> setAdd vs v = Throws SetSizeExceeded"
  by (simp add: setAdd_def)

lemma numOfInt_exact:
  "- (2 ^ 53) \<le> n \<Longrightarrow> n \<le> 2 ^ 53 \<Longrightarrow> numOfInt n = Fin (of_int n)"
  by (simp add: numOfInt_def toDouble_of_int)

text \<open>Counting up by one from the integer \<open>a\<close>: as long as the counter stays within
  \<open>2 ^ 53\<close> and the set has room, the loop adds the integers it passes, when none of them is
  in the set already.\<close>

lemma forLoop_ints_prefix:
  assumes "- (2 ^ 53) \<le> a" and "c \<le> 2 ^ 53" and "a \<le> c" and "c \<le> b + 1"
    and "\<forall>k. a \<le> k \<longrightarrow> Fin (of_int k) \<notin> set vs"
    and "length vs + nat (c - a) \<le> maxSetSize"
  shows "forLoop (Fin (of_int a)) (Fin (of_int b)) (Fin 1) vs
           = forLoop (Fin (of_int c)) (Fin (of_int b)) (Fin 1)
               (vs @ map (\<lambda>k. Fin (of_int k)) [a..c - 1])"
  using assms
proof (induction "nat (c - a)" arbitrary: a vs)
  case 0
  then have "a = c" by simp
  then show ?case by simp
next
  case (Suc n)
  then have lt: "a < c" by linarith
  with Suc.prems have le: "a \<le> b" by linarith
  have fresh: "Fin (of_int a) \<notin> set vs"
    using Suc.prems(5) by simp
  have room: "length vs < maxSetSize"
    using Suc.prems(6) lt by linarith
  have nxt: "toDouble (of_int a + 1) = Fin (of_int a + 1)"
    using toDouble_of_int[of "a + 1"] Suc.prems(1,2) lt by simp
  have step: "forLoop (Fin (of_int a)) (Fin (of_int b)) (Fin 1) vs
      = forLoop (Fin (of_int (a + 1))) (Fin (of_int b)) (Fin 1) (vs @ [Fin (of_int a)])"
    using le by (subst forLoop.simps) (simp add: setAdd_fresh[OF fresh room] nxt)
  have n: "n = nat (c - (a + 1))"
    using Suc.hyps(2) by linarith
  have fresh': "\<forall>k. a + 1 \<le> k \<longrightarrow> Fin (of_int k) \<notin> set (vs @ [Fin (of_int a)])"
    using Suc.prems(5) by auto
  have room': "length (vs @ [Fin (of_int a)]) + nat (c - (a + 1)) \<le> maxSetSize"
    using Suc.prems(6) lt by simp
  have "forLoop (Fin (of_int (a + 1))) (Fin (of_int b)) (Fin 1) (vs @ [Fin (of_int a)])
      = forLoop (Fin (of_int c)) (Fin (of_int b)) (Fin 1)
          ((vs @ [Fin (of_int a)]) @ map (\<lambda>k. Fin (of_int k)) [a + 1..c - 1])"
    using Suc.hyps(1)[OF n _ Suc.prems(2) _ Suc.prems(4) fresh' room'] Suc.prems(1) lt
    by simp
  also have "(vs @ [Fin (of_int a)]) @ map (\<lambda>k. Fin (of_int k)) [a + 1..c - 1]
      = vs @ map (\<lambda>k. Fin (of_int k)) [a..c - 1]"
    using lt by (simp add: upto_rec1[of a "c - 1"])
  finally show ?case
    using step by simp
qed

lemma forLoop_ints:
  assumes "- (2 ^ 53) \<le> a" and "b < 2 ^ 53" and "a \<le> b + 1"
    and "\<forall>k. a \<le> k \<longrightarrow> Fin (of_int k) \<notin> set vs"
    and "length vs + nat (b + 1 - a) \<le> maxSetSize"
  shows "forLoop (Fin (of_int a)) (Fin (of_int b)) (Fin 1) vs
           = Returns (vs @ map (\<lambda>k. Fin (of_int k)) [a..b])"
proof -
  have "forLoop (Fin (of_int a)) (Fin (of_int b)) (Fin 1) vs
      = forLoop (Fin (of_int (b + 1))) (Fin (of_int b)) (Fin 1)
          (vs @ map (\<lambda>k. Fin (of_int k)) [a..b + 1 - 1])"
    using assms by (intro forLoop_ints_prefix) simp_all
  also have "\<dots> = Returns (vs @ map (\<lambda>k. Fin (of_int k)) [a..b])"
    by (subst forLoop.simps) simp
  finally show ?thesis .
qed

text \<open>When the integers to add outnumber the room that is left, the loop fills the set
  and throws.\<close>

lemma forLoop_ints_overflow:
  assumes "- (2 ^ 53) \<le> a" and "b < 2 ^ 53"
    and "\<forall>k. a \<le> k \<longrightarrow> Fin (of_int k) \<notin> set vs"
    and "length vs \<le> maxSetSize"
    and "maxSetSize < length vs + nat (b + 1 - a)"
  shows "forLoop (Fin (of_int a)) (Fin (of_int b)) (Fin 1) vs = Throws SetSizeExceeded"
proof -
  define c where "c = a + int (maxSetSize - length vs)"
  define ws where "ws = vs @ map (\<lambda>k. Fin (of_int k)) [a..c - 1]"
  have ac: "a \<le> c"
    by (simp add: c_def)
  have cb: "c \<le> b"
    using assms(4,5) unfolding c_def by linarith
  have "forLoop (Fin (of_int a)) (Fin (of_int b)) (Fin 1) vs
      = forLoop (Fin (of_int c)) (Fin (of_int b)) (Fin 1) ws"
    unfolding ws_def using assms(1,2,3,4) ac cb
    by (intro forLoop_ints_prefix) (simp_all add: c_def)
  moreover have "length ws = maxSetSize"
    using assms(4) ac by (simp add: ws_def c_def)
  moreover have "Fin (of_int c) \<notin> set ws"
    using assms(3) ac by (auto simp: ws_def)
  ultimately show ?thesis
    using cb by (subst (asm) forLoop.simps[of "Fin (of_int c)"]) (simp add: setAdd_full)
qed

lemma finValues_ints: "finValues (map (\<lambda>k. Fin (of_int k)) ks) = map of_int ks"
  by (induction ks) simp_all

lemma sorted_map_of_int_upto: "sorted (map (of_int :: int \<Rightarrow> rat) [a..b])"
  by (simp add: sorted_map sorted_wrt_mono_rel[of _ "(\<le>)"])

lemma distinct_map_of_int_upto: "distinct (map (of_int :: int \<Rightarrow> rat) [a..b])"
  by (simp add: distinct_map inj_on_def)

lemma find_None_conv: "find P xs = None \<longleftrightarrow> (\<forall>x\<in>set xs. \<not> P x)"
  by (induction xs) auto

lemma parseField_star:
  assumes "mn \<le> mx" and "- (2 ^ 53) \<le> mn" and "mx < 2 ^ 53" and "mx - mn < 2 ^ 24"
  shows "parseField ''*'' mn mx = Returns \<lparr>values_of = map of_int [mn..mx], raw = ''*''\<rparr>"
proof -
  define ks where "ks = map (\<lambda>k. Fin (of_int k)) [mn..mx]"
  have lo: "numOfInt mn = Fin (of_int mn)" and hi: "numOfInt mx = Fin (of_int mx)"
    using assms by (simp_all add: numOfInt_exact)
  have room: "length ([] :: jsnum list) + nat (mx + 1 - mn) \<le> maxSetSize"
    using assms by (simp add: maxSetSize_def)
  have "forLoop (Fin (of_int mn)) (Fin (of_int mx)) (Fin 1) [] = Returns ([] @ ks)"
    unfolding ks_def using assms room by (intro forLoop_ints) simp_all
  then have terms: "parseTerms (jsSplit CHR '','' ''*'') mn mx [] = Returns ks"
    by (simp add: parseTerm_def lo hi)
  have "sorted (map numKey ks)"
    by (simp add: ks_def numKey_def comp_def sorted_map sorted_wrt_mono_rel[of _ "(\<le>)"])
  then have srt: "sort_key numKey ks = ks"
    by (rule sort_key_id_if_sorted)
  have none: "find (outOfRange mn mx) ks = None"
    by (auto simp: find_None_conv outOfRange_def jsLt_def lo hi ks_def)
  show ?thesis
    unfolding parseField_def terms
    by (simp add: srt none) (simp add: ks_def finValues_ints)
qed

text \<open>
  Claim C5. For bounds \<open>min \<le> max\<close> that are integers of magnitude below \<open>2 ^ 53\<close> and at most
  \<open>2 ^ 24\<close> values apart, \<open>parseField("*", min, max)\<close> returns, and its values are exactly the
  integers \<open>min, min + 1, ..., max\<close>, in ascending order and without duplicates. The five
  pairs of bounds that the program passes are of this kind.
\<close>

theorem parseField_wildcard_is_full_range:
  assumes "mn \<le> mx" and "- (2 ^ 53) \<le> mn" and "mx < 2 ^ 53" and "mx - mn < 2 ^ 24"
  shows "\<exists>f. parseField ''*'' mn mx = Returns f
           \<and> values_of f = map of_int [mn..mx]
           \<and> set (values_of f) = of_int ` {mn..mx}
           \<and> sorted (values_of f) \<and> distinct (values_of f)"
  using assms
  by (simp add: parseField_star sorted_map_of_int_upto distinct_map_of_int_upto)

theorem parseField_wildcard_is_full_range_witness:
  "(1::int) \<le> 5
   \<and> (\<exists>f. parseField ''*'' 1 5 = Returns f
          \<and> values_of f = [1, 2, 3, 4, 5]
          \<and> set (values_of f) = of_int ` {1..5}
          \<and> sorted (values_of f) \<and> distinct (values_of f))"
proof -
  have le: "(1::int) \<le> 5" "- (2 ^ 53) \<le> (1::int)" "(5::int) < 2 ^ 53" "(5::int) - 1 < 2 ^ 24"
    by simp_all
  have up: "map (of_int :: int \<Rightarrow> rat) [1..5] = [1, 2, 3, 4, 5]"
    by (simp add: upto_rec1)
  show ?thesis
    using parseField_wildcard_is_full_range[OF le] unfolding up by simp
qed

lemma wildcard_fields_of_the_program:
  "parseField ''*'' 0 59 = Returns \<lparr>values_of = map of_int [0..59], raw = ''*''\<rparr>
   \<and> parseField ''*'' 0 23 = Returns \<lparr>values_of = map of_int [0..23], raw = ''*''\<rparr>
   \<and> parseField ''*'' 1 31 = Returns \<lparr>values_of = map of_int [1..31], raw = ''*''\<rparr>
   \<and> parseField ''*'' 1 12 = Returns \<lparr>values_of = map of_int [1..12], raw = ''*''\<rparr>
   \<and> parseField ''*'' 0 7 = Returns \<lparr>values_of = map of_int [0..7], raw = ''*''\<rparr>"
  by (simp add: parseField_star)

text \<open>
  Beyond these bounds the call need not return. At \<open>min = max = 2 ^ 53\<close> the counter cannot
  advance (\<open>2 ^ 53 + 1\<close> rounds back to \<open>2 ^ 53\<close>) and the loop never ends; from 0 to \<open>2 ^ 24\<close>
  the set runs out of room.
\<close>

theorem wildcard_loop_can_fail:
  "parseField ''*'' 9007199254740992 9007199254740992 = Hangs
   \<and> parseField ''*'' 0 16777216 = Throws SetSizeExceeded"
proof -
  have a: "parseField ''*'' 9007199254740992 9007199254740992 = Hangs"
    by (simp add: field_eval double_eval)
  have "forLoop (Fin (of_int 0)) (Fin (of_int 16777216)) (Fin 1) [] = Throws SetSizeExceeded"
    by (rule forLoop_ints_overflow) (simp_all add: maxSetSize_def)
  then have "parseTerms (jsSplit CHR '','' ''*'') 0 16777216 [] = Throws SetSizeExceeded"
    by (simp add: parseTerm_def numOfInt_def small_int_eval)
  then have b: "parseField ''*'' 0 16777216 = Throws SetSizeExceeded"
    unfolding parseField_def by simp
  from a b show ?thesis ..
qed

subsection \<open>Values out of range\<close>

lemma parseTerm_shape:
  "(\<exists>a b s. \<forall>vs. parseTerm p mn mx vs = forLoop a b s vs)
   \<or> (\<exists>e. \<forall>vs. parseTerm p mn mx vs = Throws e)
   \<or> (\<exists>n. \<forall>vs. parseTerm p mn mx vs = setAdd vs n)"
proof (cases "p = ''*''")
  case True
  then show ?thesis unfolding parseTerm_def by auto
next
  case star: False
  show ?thesis
  proof (cases "jsIncludes p CHR ''/''")
    case True
    show ?thesis
    proof (cases "jsSplit CHR ''/'' p")
      case Nil
      with star True show ?thesis unfolding parseTerm_def by simp
    next
      case (Cons r rest)
      show ?thesis
      proof (cases rest)
        case Nil
        with star True Cons show ?thesis unfolding parseTerm_def by simp
      next
        case (Cons st rest')
        show ?thesis
        proof (cases "isNaN (parseInt st (Some 10)) \<or> jsLe (parseInt st (Some 10)) (Fin 0)")
          case bad: True
          have "\<forall>vs. parseTerm p mn mx vs = Throws (InvalidStep p)"
            using star True \<open>jsSplit CHR ''/'' p = r # rest\<close> Cons bad
            unfolding parseTerm_def Let_def by auto
          then show ?thesis by blast
        next
          case ok: False
          obtain a b where ab:
            "(if r \<noteq> ''*'' then
                (if jsIncludes r CHR ''-''
                 then firstTwo (map jsNumber (jsSplit CHR ''-'' r))
                 else (parseInt r (Some 10), numOfInt mx))
              else (numOfInt mn, numOfInt mx)) = (a, b)"
            by (cases "(if r \<noteq> ''*'' then
                (if jsIncludes r CHR ''-''
                 then firstTwo (map jsNumber (jsSplit CHR ''-'' r))
                 else (parseInt r (Some 10), numOfInt mx))
              else (numOfInt mn, numOfInt mx))") blast
          have "\<forall>vs. parseTerm p mn mx vs = forLoop a b (parseInt st (Some 10)) vs"
            using star True \<open>jsSplit CHR ''/'' p = r # rest\<close> Cons ok
            unfolding parseTerm_def Let_def by (simp add: ab)
          then show ?thesis by blast
        qed
      qed
    qed
  next
    case slash: False
    show ?thesis
    proof (cases "jsIncludes p CHR ''-''")
      case True
      obtain a b where ab: "firstTwo (map jsNumber (jsSplit CHR ''-'' p)) = (a, b)"
        by (cases "firstTwo (map jsNumber (jsSplit CHR ''-'' p))") blast
      show ?thesis
      proof (cases "isNaN a \<or> isNaN b")
        case nan: True
        have "\<forall>vs. parseTerm p mn mx vs = Throws (InvalidRange p)"
          using star slash True nan unfolding parseTerm_def by (simp add: ab)
        then show ?thesis by blast
      next
        case ok: False
        have "\<forall>vs. parseTerm p mn mx vs = forLoop a b (Fin 1) vs"
          using star slash True ok unfolding parseTerm_def by (simp add: ab)
        then show ?thesis by blast
      qed
    next
      case False
      show ?thesis
      proof (cases "isNaN (parseInt p (Some 10))")
        case True
        have "\<forall>vs. parseTerm p mn mx vs = Throws (InvalidValue p)"
          using star slash False True unfolding parseTerm_def Let_def by simp
        then show ?thesis by blast
      next
        case ok: False
        have "\<forall>vs. parseTerm p mn mx vs = setAdd vs (parseInt p (Some 10))"
          using star slash False ok unfolding parseTerm_def Let_def by simp
        then show ?thesis by blast
      qed
    qed
  qed
qed

text \<open>A set with room for the values that a call adds takes them whatever it held before.\<close>

lemma setAdd_room:
  assumes "distinct vs" and "finite X" and "card (set vs \<union> insert v X) \<le> maxSetSize"
  shows "setAdd vs v = Returns (setInsert vs v)"
proof (cases "v \<in> set vs")
  case True
  then show ?thesis by (simp add: setAdd_def)
next
  case False
  have "length vs = card (set vs)"
    using assms(1) by (simp add: distinct_card)
  also have "\<dots> < card (insert v (set vs))"
    using False by simp
  also have "\<dots> \<le> card (set vs \<union> insert v X)"
    using assms(2) by (intro card_mono) auto
  finally show ?thesis
    using assms(3) by (simp add: setAdd_def)
qed

lemma forLoop_acc:
  "forLoop i e s us = Returns ts \<Longrightarrow>
     \<exists>X. set ts = set us \<union> X \<and> finite X
        \<and> (\<forall>vs. distinct vs \<and> card (set vs \<union> X) \<le> maxSetSize \<longrightarrow>
              (\<exists>vs'. forLoop i e s vs = Returns vs' \<and> set vs' = set vs \<union> X \<and> distinct vs'))"
proof (induction i e s us arbitrary: ts rule: forLoop.induct)
  case (1 i e s us)
  show ?case
  proof (cases "jsLe i e")
    case False
    then have "forLoop i e s ws = Returns ws" for ws
      by (simp add: forLoop.simps[of i e s ws])
    with "1.prems" have "set ts = set us \<union> {}"
      "\<forall>vs. distinct vs \<and> card (set vs \<union> {}) \<le> maxSetSize \<longrightarrow>
          (\<exists>vs'. forLoop i e s vs = Returns vs' \<and> set vs' = set vs \<union> {} \<and> distinct vs')"
      by simp_all
    then show ?thesis
      by (intro exI[of _ "{}"]) simp
  next
    case True
    have unf: "forLoop i e s ws =
        (case setAdd ws i of
           Returns ws' \<Rightarrow>
             if jsLe (jsAdd i s) i then Hangs else forLoop (jsAdd i s) e s ws'
         | Throws x \<Rightarrow> Throws x
         | Hangs \<Rightarrow> Hangs)" for ws
      using True by (simp add: forLoop.simps[of i e s ws])
    obtain us' where add: "setAdd us i = Returns us'"
      using "1.prems" unfolding unf[of us] by (cases "setAdd us i") simp_all
    have adv: "\<not> jsLe (jsAdd i s) i"
      using "1.prems" unfolding unf[of us] add by (simp split: if_splits)
    have rec: "forLoop (jsAdd i s) e s us' = Returns ts"
      using "1.prems" adv unfolding unf[of us] add by simp
    have us': "set us' = insert i (set us)"
      using add by (auto simp: setAdd_def set_setInsert split: if_splits)
    have nn: "\<not> \<not> jsLe i e"
      using True by simp
    from "1.IH"[OF nn add adv rec] obtain X where
      X: "set ts = set us' \<union> X" "finite X"
        "\<forall>vs. distinct vs \<and> card (set vs \<union> X) \<le> maxSetSize \<longrightarrow>
            (\<exists>vs'. forLoop (jsAdd i s) e s vs = Returns vs' \<and> set vs' = set vs \<union> X \<and> distinct vs')"
      by blast
    have "\<exists>vs'. forLoop i e s vs = Returns vs' \<and> set vs' = set vs \<union> insert i X \<and> distinct vs'"
      if d: "distinct vs" and c: "card (set vs \<union> insert i X) \<le> maxSetSize" for vs
    proof -
      have a: "setAdd vs i = Returns (setInsert vs i)"
        using d X(2) c by (rule setAdd_room)
      have step: "forLoop i e s vs = forLoop (jsAdd i s) e s (setInsert vs i)"
        unfolding unf[of vs] a using adv by simp
      have eq: "set (setInsert vs i) \<union> X = set vs \<union> insert i X"
        by (auto simp: set_setInsert)
      have d': "distinct (setInsert vs i)"
        using d by (rule distinct_setInsert)
      have c': "card (set (setInsert vs i) \<union> X) \<le> maxSetSize"
        using c unfolding eq .
      from X(3)[rule_format, of "setInsert vs i"] d' c' obtain vs' where
        "forLoop (jsAdd i s) e s (setInsert vs i) = Returns vs'"
        "set vs' = set (setInsert vs i) \<union> X" "distinct vs'"
        by blast
      then show ?thesis
        unfolding step eq by blast
    qed
    moreover have "set ts = set us \<union> insert i X"
      using X(1) us' by auto
    ultimately show ?thesis
      using X(2) by (intro exI[of _ "insert i X"]) simp
  qed
qed

lemma parseTerm_acc:
  assumes "parseTerm p mn mx [] = Returns ts"
    and "distinct vs" and "card (set vs \<union> set ts) \<le> maxSetSize"
  shows "\<exists>vs'. parseTerm p mn mx vs = Returns vs' \<and> set vs' = set vs \<union> set ts \<and> distinct vs'"
proof -
  consider (loop) a b s where "\<forall>vs. parseTerm p mn mx vs = forLoop a b s vs"
    | (throw) e where "\<forall>vs. parseTerm p mn mx vs = Throws e"
    | (single) n where "\<forall>vs. parseTerm p mn mx vs = setAdd vs n"
    using parseTerm_shape[of p mn mx] by blast
  then show ?thesis
  proof cases
    case loop
    with assms(1) have "forLoop a b s [] = Returns ts" by simp
    from forLoop_acc[OF this] obtain X where
      "set ts = set [] \<union> X"
      "\<forall>vs. distinct vs \<and> card (set vs \<union> X) \<le> maxSetSize \<longrightarrow>
          (\<exists>vs'. forLoop a b s vs = Returns vs' \<and> set vs' = set vs \<union> X \<and> distinct vs')"
      by blast
    then show ?thesis
      using loop assms(2,3) by simp
  next
    case throw
    with assms(1) show ?thesis by simp
  next
    case single
    with assms(1) have "setAdd [] n = Returns ts" by simp
    then have ts: "set ts = {n}"
      by (auto simp: setAdd_def setInsert_def split: if_splits)
    have "setAdd vs n = Returns (setInsert vs n)"
      using assms(2) _ assms(3)[unfolded ts] by (rule setAdd_room[where X = "{}"]) simp
    then show ?thesis
      using single assms(2) by (simp add: set_setInsert distinct_setInsert ts)
  qed
qed

lemma parseTerms_union:
  assumes "\<forall>p \<in> set parts. parseTerm p mn mx [] = Returns (tv p)"
    and "distinct vs"
    and "card (set vs \<union> (\<Union>p \<in> set parts. set (tv p))) \<le> maxSetSize"
  shows "\<exists>vs'. parseTerms parts mn mx vs = Returns vs'
            \<and> set vs' = set vs \<union> (\<Union>p \<in> set parts. set (tv p)) \<and> distinct vs'"
  using assms
proof (induction parts arbitrary: vs)
  case Nil
  then show ?case by simp
next
  case (Cons p parts)
  from Cons.prems have t: "parseTerm p mn mx [] = Returns (tv p)" by simp
  have "card (set vs \<union> set (tv p)) \<le> card (set vs \<union> (\<Union>q \<in> set (p # parts). set (tv q)))"
    by (intro card_mono) auto
  with Cons.prems(3) have "card (set vs \<union> set (tv p)) \<le> maxSetSize"
    by linarith
  from parseTerm_acc[OF t Cons.prems(2) this] obtain v1
    where v1: "parseTerm p mn mx vs = Returns v1" "set v1 = set vs \<union> set (tv p)" "distinct v1"
    by blast
  from Cons.prems have r: "\<forall>q \<in> set parts. parseTerm q mn mx [] = Returns (tv q)" by simp
  have "set v1 \<union> (\<Union>q \<in> set parts. set (tv q)) = set vs \<union> (\<Union>q \<in> set (p # parts). set (tv q))"
    using v1(2) by auto
  with Cons.prems(3) have "card (set v1 \<union> (\<Union>q \<in> set parts. set (tv q))) \<le> maxSetSize"
    by simp
  from Cons.IH[OF r v1(3) this] obtain v2
    where v2: "parseTerms parts mn mx v1 = Returns v2"
      "set v2 = set v1 \<union> (\<Union>q \<in> set parts. set (tv q))" "distinct v2"
    by blast
  show ?case
    using v1 v2 by auto
qed

lemma find_sorted_key:
  assumes "sorted (map f xs)" and "\<exists>x \<in> set xs. P x"
  shows "\<exists>v. find P xs = Some v \<and> v \<in> set xs \<and> P v \<and> (\<forall>w \<in> set xs. P w \<longrightarrow> f v \<le> f w)"
  using assms by (induction xs) auto

lemma jsLe_NaN_right: "\<not> jsLe a NaN"
  by (cases a) simp_all

lemma outOfRange_not_NaN: "outOfRange mn mx v \<Longrightarrow> v \<noteq> NaN"
  by (auto simp: outOfRange_def jsLt_def jsLe_NaN_right)

lemma numKey_le: "numKey v \<le> numKey w \<Longrightarrow> v \<noteq> NaN \<Longrightarrow> w \<noteq> NaN \<Longrightarrow> jsLe v w"
  by (cases v; cases w) (simp_all add: numKey_def)

lemma parseField_find:
  assumes "parseTerms (jsSplit CHR '','' rawText) mn mx [] = Returns vs"
    and "\<exists>v \<in> set vs. outOfRange mn mx v"
  shows "\<exists>v. parseField rawText mn mx = Throws (OutOfRange v mn mx)
           \<and> v \<in> set vs \<and> outOfRange mn mx v
           \<and> (\<forall>w \<in> set vs. outOfRange mn mx w \<longrightarrow> jsLe v w)"
proof -
  have "sorted (map numKey (sort_key numKey vs))"
    by (rule sorted_sort_key)
  moreover have "\<exists>v \<in> set (sort_key numKey vs). outOfRange mn mx v"
    using assms(2) by simp
  ultimately obtain v where v: "find (outOfRange mn mx) (sort_key numKey vs) = Some v"
    "v \<in> set (sort_key numKey vs)" "outOfRange mn mx v"
    "\<forall>w \<in> set (sort_key numKey vs). outOfRange mn mx w \<longrightarrow> numKey v \<le> numKey w"
    using find_sorted_key[of numKey "sort_key numKey vs" "outOfRange mn mx"] by blast
  have "jsLe v w" if "w \<in> set vs" "outOfRange mn mx w" for w
    using v(3,4) that by (intro numKey_le) (auto dest: outOfRange_not_NaN)
  moreover have "parseField rawText mn mx = Throws (OutOfRange v mn mx)"
    unfolding parseField_def assms(1) by (simp add: v(1))
  ultimately show ?thesis
    using v(2,3) by auto
qed

text \<open>
  Claim C3. When every term of a raw field, parsed on its own, gives its values, the values
  of all the terms together are at most \<open>2 ^ 24\<close>, and one of them lies outside \<open>[min, max]\<close>,
  \<open>parseField\<close> throws the out-of-range error for the least such value, with \<open>min\<close> and \<open>max\<close>.
  Here \<open>tv p\<close> stands for the values of term \<open>p\<close>; they are the doubles that the code computes.
  In particular \<open>parseField("25", 0, 23)\<close> throws \<open>OutOfRange 25 0 23\<close>, the first instance below.
\<close>

theorem parseField_out_of_range:
  assumes terms: "\<forall>p \<in> set (jsSplit CHR '','' rawText). parseTerm p mn mx [] = Returns (tv p)"
    and room: "card (\<Union>p \<in> set (jsSplit CHR '','' rawText). set (tv p)) \<le> maxSetSize"
    and bad: "\<exists>p \<in> set (jsSplit CHR '','' rawText). \<exists>v \<in> set (tv p). outOfRange mn mx v"
  shows "\<exists>v. parseField rawText mn mx = Throws (OutOfRange v mn mx)
           \<and> (\<exists>p \<in> set (jsSplit CHR '','' rawText). v \<in> set (tv p))
           \<and> outOfRange mn mx v
           \<and> (\<forall>p \<in> set (jsSplit CHR '','' rawText). \<forall>w \<in> set (tv p).
                 outOfRange mn mx w \<longrightarrow> jsLe v w)"
proof -
  have "card (set [] \<union> (\<Union>p \<in> set (jsSplit CHR '','' rawText). set (tv p))) \<le> maxSetSize"
    using room by simp
  from parseTerms_union[OF terms _ this] obtain vs
    where vs: "parseTerms (jsSplit CHR '','' rawText) mn mx [] = Returns vs"
      "set vs = (\<Union>p \<in> set (jsSplit CHR '','' rawText). set (tv p))"
    by auto
  have "\<exists>v \<in> set vs. outOfRange mn mx v"
    using bad vs(2) by auto
  from parseField_find[OF vs(1) this] show ?thesis
    unfolding vs(2) by blast
qed

theorem parseField_out_of_range_witness:
  "parseField ''25'' 0 23 = Throws (OutOfRange (Fin 25) 0 23)
   \<and> parseField ''5,70,3,99'' 0 59 = Throws (OutOfRange (Fin 70) 0 59)"
proof -
  define tv :: "string \<Rightarrow> jsnum list" where
    "tv = (\<lambda>p. if p = ''5'' then [Fin 5] else if p = ''70'' then [Fin 70]
                else if p = ''3'' then [Fin 3] else if p = ''99'' then [Fin 99] else [Fin 25])"
  have s1: "jsSplit CHR '','' ''25'' = [''25'']" by simp
  have s2: "jsSplit CHR '','' ''5,70,3,99'' = [''5'', ''70'', ''3'', ''99'']" by simp
  have t1: "\<forall>p \<in> set (jsSplit CHR '','' ''25''). parseTerm p 0 23 [] = Returns (tv p)"
    unfolding s1 by (simp add: tv_def parse_eval)
  have r1: "card (\<Union>p \<in> set (jsSplit CHR '','' ''25''). set (tv p)) \<le> maxSetSize"
    unfolding s1 by (simp add: tv_def maxSetSize_def)
  have b1: "\<exists>p \<in> set (jsSplit CHR '','' ''25''). \<exists>v \<in> set (tv p). outOfRange 0 23 v"
    unfolding s1 by (simp add: tv_def parse_eval)
  have t2: "\<forall>p \<in> set (jsSplit CHR '','' ''5,70,3,99''). parseTerm p 0 59 [] = Returns (tv p)"
    unfolding s2 by (simp add: tv_def parse_eval)
  have r2: "card (\<Union>p \<in> set (jsSplit CHR '','' ''5,70,3,99''). set (tv p)) \<le> maxSetSize"
    unfolding s2 by (simp add: tv_def maxSetSize_def)
  have b2: "\<exists>p \<in> set (jsSplit CHR '','' ''5,70,3,99''). \<exists>v \<in> set (tv p). outOfRange 0 59 v"
    unfolding s2 by (simp add: tv_def parse_eval)
  from parseField_out_of_range[OF t1 r1 b1] obtain v where
    v: "parseField ''25'' 0 23 = Throws (OutOfRange v 0 23)"
      "\<exists>p \<in> set (jsSplit CHR '','' ''25''). v \<in> set (tv p)"
    by blast
  from v(2) have "v = Fin 25"
    unfolding s1 by (simp add: tv_def)
  with v(1) have a: "parseField ''25'' 0 23 = Throws (OutOfRange (Fin 25) 0 23)"
    by simp
  from parseField_out_of_range[OF t2 r2 b2] obtain w where
    w: "parseField ''5,70,3,99'' 0 59 = Throws (OutOfRange w 0 59)"
      "\<exists>p \<in> set (jsSplit CHR '','' ''5,70,3,99''). w \<in> set (tv p)"
      "outOfRange 0 59 w"
      "\<forall>p \<in> set (jsSplit CHR '','' ''5,70,3,99''). \<forall>u \<in> set (tv p). outOfRange 0 59 u \<longrightarrow> jsLe w u"
    by blast
  from w(2) have "w = Fin 5 \<or> w = Fin 70 \<or> w = Fin 3 \<or> w = Fin 99"
    unfolding s2 by (auto simp: tv_def)
  moreover from w(4) have "jsLe w (Fin 70)"
    unfolding s2 by (simp add: tv_def parse_eval)
  ultimately have "w = Fin 70"
    using w(3) by (auto simp: parse_eval)
  with w(1) have b: "parseField ''5,70,3,99'' 0 59 = Throws (OutOfRange (Fin 70) 0 59)"
    by simp
  from a b show ?thesis ..
qed

text \<open>
  A field whose values reach outside the bounds is not always answered with that error. The
  loop of the range \<open>2 ^ 53\<close> to \<open>2 ^ 53\<close> never ends: its counter cannot advance. The range 0
  to 20000000 fills the set before the check is reached. And a value that is not a double is
  reported as the double it rounds to.
\<close>

theorem out_of_range_value_is_not_reported:
  "parseField ''9007199254740992-9007199254740992'' 0 59 = Hangs
   \<and> parseField ''0-20000000'' 0 59 = Throws SetSizeExceeded
   \<and> parseField ''9007199254740993'' 0 59 = Throws (OutOfRange (Fin 9007199254740992) 0 59)"
proof -
  have a: "parseField ''9007199254740992-9007199254740992'' 0 59 = Hangs"
    by (simp add: field_eval double_eval)
  have n: "firstTwo (map jsNumber (jsSplit CHR ''-'' ''0-20000000'')) = (Fin 0, Fin 20000000)"
    by (simp add: parse_eval)
  have "forLoop (Fin (of_int 0)) (Fin (of_int 20000000)) (Fin 1) [] = Throws SetSizeExceeded"
    by (rule forLoop_ints_overflow) (simp_all add: maxSetSize_def)
  then have "parseTerm ''0-20000000'' 0 59 [] = Throws SetSizeExceeded"
    unfolding parseTerm_def n by (simp add: jsIncludes_def isNaN_def)
  then have b: "parseField ''0-20000000'' 0 59 = Throws SetSizeExceeded"
    unfolding parseField_def by simp
  have c: "parseField ''9007199254740993'' 0 59 = Throws (OutOfRange (Fin 9007199254740992) 0 59)"
    by (simp add: field_eval double_eval)
  from a b c show ?thesis by blast
qed

text \<open>
  The counter of a range is rounded at every step. From 3.06 it takes the values
  4.0600000000000005, 5.0600000000000005 and 6.0600000000000005; the next sum is above 7.06,
  so the range \<open>3.06-7.06\<close> ends below 7 and lies within the bounds of the day of week.
\<close>

lemma fractional_range_is_rounded_at_each_step:
  "parseField ''3.06-7.06'' 0 7
     = Returns \<lparr>values_of =
         [6890507429876859 / 2251799813685248, 2285576810890527 / 562949953421312,
          2848526764311839 / 562949953421312, 3411476717733151 / 562949953421312],
         raw = ''3.06-7.06''\<rparr>"
  by (simp add: field_eval double_eval)

subsection \<open>Descending ranges\<close>

text \<open>
  Claim C9. A range term \<open>A-B\<close> whose bounds read as numbers with \<open>A > B\<close> raises no error
  and adds no value; a field that is only such a term parses to the empty list of values.
\<close>

theorem descending_range_is_empty:
  assumes "\<not> jsIncludes part CHR ''/''" and "jsIncludes part CHR ''-''"
    and "firstTwo (map jsNumber (jsSplit CHR ''-'' part)) = (Fin a, Fin b)"
    and "b < a"
  shows "parseTerm part mn mx vs = Returns vs
         \<and> (\<not> jsIncludes part CHR '','' \<longrightarrow>
              parseField part mn mx = Returns \<lparr>values_of = [], raw = part\<rparr>)"
proof -
  have star: "part \<noteq> ''*''"
    using assms(2) by (auto simp: jsIncludes_def)
  have tm: "parseTerm part mn mx ws = Returns ws" for ws
    using star assms unfolding parseTerm_def
    by (simp add: isNaN_def forLoop.simps)
  have "parseField part mn mx = Returns \<lparr>values_of = [], raw = part\<rparr>"
    if "\<not> jsIncludes part CHR '',''"
  proof -
    from that have "jsSplit CHR '','' part = [part]"
      by (simp add: jsIncludes_def jsSplit_no_sep)
    then show ?thesis
      unfolding parseField_def by (simp add: tm)
  qed
  with tm show ?thesis by blast
qed

theorem descending_range_is_empty_witness:
  "parseTerm ''5-1'' 0 59 [Fin 3] = Returns [Fin 3]
   \<and> parseField ''5-1'' 0 59 = Returns \<lparr>values_of = [], raw = ''5-1''\<rparr>"
proof -
  have a: "\<not> jsIncludes ''5-1'' CHR ''/''" and b: "jsIncludes ''5-1'' CHR ''-''"
    and d: "\<not> jsIncludes ''5-1'' CHR '',''"
    by (simp_all add: jsIncludes_def)
  have c: "firstTwo (map jsNumber (jsSplit CHR ''-'' ''5-1'')) = (Fin 5, Fin 1)"
    by (simp add: parse_eval)
  have e: "(1::rat) < 5" by simp
  show ?thesis
    using descending_range_is_empty[OF a b c e, of 0 59 "[Fin 3]"] d by simp
qed

subsection \<open>Stepped terms with a base that is not a number\<close>

lemma nonNumericStep_term:
  assumes "nonNumericStep part"
  shows "parseTerm part mn mx vs = Returns vs"
proof -
  from assms have inc: "jsIncludes part CHR ''/''"
    by (simp add: nonNumericStep_def)
  then have star: "part \<noteq> ''*''"
    by (auto simp: jsIncludes_def)
  from assms obtain r st rest where sp: "jsSplit CHR ''/'' part = r # st # rest"
    by (auto simp: nonNumericStep_def split: list.splits)
  from assms sp have st: "\<not> (isNaN (parseInt st (Some 10)) \<or> jsLe (parseInt st (Some 10)) (Fin 0))"
    by (simp add: nonNumericStep_def)
  from assms sp have r: "r \<noteq> ''*''"
    by (simp add: nonNumericStep_def)
  show ?thesis
  proof (cases "jsIncludes r CHR ''-''")
    case True
    obtain a b where ab: "firstTwo (map jsNumber (jsSplit CHR ''-'' r)) = (a, b)"
      by (cases "firstTwo (map jsNumber (jsSplit CHR ''-'' r))") blast
    with assms sp True have "a = NaN \<or> b = NaN"
      by (simp add: nonNumericStep_def isNaN_def)
    then have "\<not> jsLe a b"
      by (auto simp: jsLe_NaN_right)
    then show ?thesis
      using star inc sp st r True ab unfolding parseTerm_def Let_def
      by (simp add: forLoop.simps)
  next
    case False
    with assms sp have "parseInt r (Some 10) = NaN"
      by (simp add: nonNumericStep_def isNaN_def)
    then show ?thesis
      using star inc sp st r False unfolding parseTerm_def Let_def
      by (simp add: forLoop.simps)
  qed
qed

lemma nonNumericStep_terms:
  "\<forall>p \<in> set parts. nonNumericStep p \<Longrightarrow> parseTerms parts mn mx vs = Returns vs"
  by (induction parts) (simp_all add: nonNumericStep_term)

lemma nonNumericStep_field:
  assumes "\<forall>p \<in> set (jsSplit CHR '','' rawText). nonNumericStep p"
  shows "parseField rawText mn mx = Returns \<lparr>values_of = [], raw = rawText\<rparr>"
  unfolding parseField_def nonNumericStep_terms[OF assms] by simp

text \<open>
  Claim C10. A stepped term with a positive step whose base does not read as a number adds
  no value and raises no error; a field made of such terms parses to the empty list of values;
  an expression whose five fields are made of such terms is reported valid.
\<close>

theorem non_numeric_step_base_is_accepted:
  "(nonNumericStep part \<longrightarrow> parseTerm part mn mx vs = Returns vs)
   \<and> ((\<forall>p \<in> set (jsSplit CHR '','' rawText). nonNumericStep p) \<longrightarrow>
        parseField rawText mn mx = Returns \<lparr>values_of = [], raw = rawText\<rparr>)
   \<and> (parseCron expr = Returns parts
        \<and> (\<forall>f \<in> set [minute parts, hour parts, dayOfMonth parts, month parts, dayOfWeek parts].
             \<forall>p \<in> set (jsSplit CHR '','' f). nonNumericStep p) \<longrightarrow>
        validateCron expr = Returns \<lparr>valid = True, error = None\<rparr>)"
proof -
  have "validateCron expr = Returns \<lparr>valid = True, error = None\<rparr>"
    if pc: "parseCron expr = Returns parts"
      and all: "\<forall>f \<in> set [minute parts, hour parts, dayOfMonth parts, month parts, dayOfWeek parts].
             \<forall>p \<in> set (jsSplit CHR '','' f). nonNumericStep p"
  proof -
    from all have "parseField (minute parts) 0 59 = Returns \<lparr>values_of = [], raw = minute parts\<rparr>"
      "parseField (hour parts) 0 23 = Returns \<lparr>values_of = [], raw = hour parts\<rparr>"
      "parseField (dayOfMonth parts) 1 31 = Returns \<lparr>values_of = [], raw = dayOfMonth parts\<rparr>"
      "parseField (month parts) 1 12 = Returns \<lparr>values_of = [], raw = month parts\<rparr>"
      "parseField (dayOfWeek parts) 0 7 = Returns \<lparr>values_of = [], raw = dayOfWeek parts\<rparr>"
      by (simp_all add: nonNumericStep_field)
    then show ?thesis
      unfolding validateCron_def pc by (simp add: parseFields_def)
  qed
  then show ?thesis
    using nonNumericStep_term nonNumericStep_field by blast
qed

theorem non_numeric_step_base_is_accepted_witness:
  "nonNumericStep ''x-y/2'' \<and> nonNumericStep ''x/2''
   \<and> parseTerm ''x-y/2'' 0 59 [] = Returns []
   \<and> parseField ''x/2,x-y/2'' 0 59 = Returns \<lparr>values_of = [], raw = ''x/2,x-y/2''\<rparr>
   \<and> validateCron ''x/2 x-y/2 x/2 x/2 x/2'' = Returns \<lparr>valid = True, error = None\<rparr>"
proof -
  define p where
    "p = \<lparr>minute = ''x/2'', hour = ''x-y/2'', dayOfMonth = ''x/2'', month = ''x/2'',
          dayOfWeek = ''x/2''\<rparr>"
  have nn1: "nonNumericStep ''x-y/2''"
    by (simp add: nonNumericStep_def parse_eval)
  have nn2: "nonNumericStep ''x/2''"
    by (simp add: nonNumericStep_def parse_eval)
  have all: "\<forall>q \<in> set (jsSplit CHR '','' ''x/2,x-y/2''). nonNumericStep q"
    using nn1 nn2 by simp
  have sw: "splitWhiteSpace (trim ''x/2 x-y/2 x/2 x/2 x/2'')
      = [''x/2'', ''x-y/2'', ''x/2'', ''x/2'', ''x/2'']"
    by (simp add: trim_def isWhiteSpace_def)
  have rn: "replaceNames ''x/2'' MONTH_MAP = ''x/2''" "replaceNames ''x/2'' DAY_MAP = ''x/2''"
    by (simp_all add: names_eval)
  have pc: "parseCron ''x/2 x-y/2 x/2 x/2 x/2'' = Returns p"
    unfolding parseCron_def Let_def sw p_def by (simp add: rn)
  have fields:
    "\<forall>f \<in> set [minute p, hour p, dayOfMonth p, month p, dayOfWeek p].
       \<forall>q \<in> set (jsSplit CHR '','' f). nonNumericStep q"
    using nn1 nn2 by (simp add: p_def)
  show ?thesis
    using non_numeric_step_base_is_accepted
      [of "''x-y/2''" 0 59 "[]" "''x/2,x-y/2''" "''x/2 x-y/2 x/2 x/2 x/2''" p]
      nn1 nn2 all pc fields
    by blast
qed

section \<open>Properties of validateCron\<close>

lemma returnedE: "returned r \<Longrightarrow> \<exists>x. r = Returns x"
  by (cases r) (simp_all add: returned_def)

lemma parseFields_returns_iff:
  "(\<exists>fs. parseFields parts = Returns fs) \<longleftrightarrow> (\<forall>r \<in> set (fieldChecks parts). returned r)"
proof
  assume "\<exists>fs. parseFields parts = Returns fs"
  then obtain fs where fs: "parseFields parts = Returns fs" by blast
  show "\<forall>r \<in> set (fieldChecks parts). returned r"
  proof (cases "parseField (minute parts) 0 59")
    case (Returns f0)
    show ?thesis
    proof (cases "parseField (hour parts) 0 23")
      case (Returns f1)
      show ?thesis
      proof (cases "parseField (dayOfMonth parts) 1 31")
        case (Returns f2)
        show ?thesis
        proof (cases "parseField (month parts) 1 12")
          case (Returns f3)
          show ?thesis
          proof (cases "parseField (dayOfWeek parts) 0 7")
            case (Returns f4)
            with \<open>parseField (minute parts) 0 59 = Returns f0\<close>
              \<open>parseField (hour parts) 0 23 = Returns f1\<close>
              \<open>parseField (dayOfMonth parts) 1 31 = Returns f2\<close>
              \<open>parseField (month parts) 1 12 = Returns f3\<close>
            show ?thesis by (simp add: fieldChecks_def returned_def)
          next
            case (Throws e)
            with fs \<open>parseField (minute parts) 0 59 = Returns f0\<close>
              \<open>parseField (hour parts) 0 23 = Returns f1\<close>
              \<open>parseField (dayOfMonth parts) 1 31 = Returns f2\<close>
              \<open>parseField (month parts) 1 12 = Returns f3\<close>
            show ?thesis by (simp add: parseFields_def)
          next
            case Hangs
            with fs \<open>parseField (minute parts) 0 59 = Returns f0\<close>
              \<open>parseField (hour parts) 0 23 = Returns f1\<close>
              \<open>parseField (dayOfMonth parts) 1 31 = Returns f2\<close>
              \<open>parseField (month parts) 1 12 = Returns f3\<close>
            show ?thesis by (simp add: parseFields_def)
          qed
        qed (use fs \<open>parseField (minute parts) 0 59 = Returns f0\<close>
              \<open>parseField (hour parts) 0 23 = Returns f1\<close>
              \<open>parseField (dayOfMonth parts) 1 31 = Returns f2\<close> in \<open>simp_all add: parseFields_def\<close>)
      qed (use fs \<open>parseField (minute parts) 0 59 = Returns f0\<close>
              \<open>parseField (hour parts) 0 23 = Returns f1\<close> in \<open>simp_all add: parseFields_def\<close>)
    qed (use fs \<open>parseField (minute parts) 0 59 = Returns f0\<close> in \<open>simp_all add: parseFields_def\<close>)
  qed (use fs in \<open>simp_all add: parseFields_def\<close>)
next
  assume all: "\<forall>r \<in> set (fieldChecks parts). returned r"
  then obtain f0 f1 f2 f3 f4 where
    "parseField (minute parts) 0 59 = Returns f0" "parseField (hour parts) 0 23 = Returns f1"
    "parseField (dayOfMonth parts) 1 31 = Returns f2" "parseField (month parts) 1 12 = Returns f3"
    "parseField (dayOfWeek parts) 0 7 = Returns f4"
    unfolding fieldChecks_def by (auto dest!: returnedE)
  then show "\<exists>fs. parseFields parts = Returns fs"
    by (simp add: parseFields_def)
qed

lemma parseFields_first_throw:
  assumes "i < 5" and "\<forall>j<i. returned (fieldChecks parts ! j)"
    and "fieldChecks parts ! i = Throws e"
  shows "parseFields parts = Throws e"
proof -
  consider "i = 0" | "i = 1" | "i = 2" | "i = 3" | "i = 4"
    using assms(1) by linarith
  then show ?thesis
  proof cases
    case 1
    with assms(3) show ?thesis
      by (simp add: fieldChecks_def parseFields_def)
  next
    case 2
    with assms(2) have "returned (fieldChecks parts ! 0)" by simp
    then obtain f0 where "parseField (minute parts) 0 59 = Returns f0"
      by (auto simp: fieldChecks_def dest!: returnedE)
    with 2 assms(3) show ?thesis
      by (simp add: fieldChecks_def parseFields_def)
  next
    case 3
    with assms(2) have "returned (fieldChecks parts ! 0)" "returned (fieldChecks parts ! 1)"
      by simp_all
    then obtain f0 f1 where "parseField (minute parts) 0 59 = Returns f0"
      "parseField (hour parts) 0 23 = Returns f1"
      by (auto simp: fieldChecks_def dest!: returnedE)
    with 3 assms(3) show ?thesis
      by (simp add: fieldChecks_def parseFields_def)
  next
    case 4
    with assms(2) have "returned (fieldChecks parts ! 0)" "returned (fieldChecks parts ! 1)"
      "returned (fieldChecks parts ! 2)"
      by simp_all
    then obtain f0 f1 f2 where "parseField (minute parts) 0 59 = Returns f0"
      "parseField (hour parts) 0 23 = Returns f1" "parseField (dayOfMonth parts) 1 31 = Returns f2"
      by (auto simp: fieldChecks_def dest!: returnedE)
    with 4 assms(3) show ?thesis
      by (simp add: fieldChecks_def parseFields_def)
  next
    case 5
    with assms(2) have "returned (fieldChecks parts ! 0)" "returned (fieldChecks parts ! 1)"
      "returned (fieldChecks parts ! 2)" "returned (fieldChecks parts ! 3)"
      by simp_all
    then obtain f0 f1 f2 f3 where "parseField (minute parts) 0 59 = Returns f0"
      "parseField (hour parts) 0 23 = Returns f1" "parseField (dayOfMonth parts) 1 31 = Returns f2"
      "parseField (month parts) 1 12 = Returns f3"
      by (auto simp: fieldChecks_def dest!: returnedE)
    with 5 assms(3) show ?thesis
      by (simp add: fieldChecks_def parseFields_def)
  qed
qed

text \<open>
  Claim C4. \<open>validateCron\<close> checks minute, hour, day of month, month and day of week in
  that order. When splitting the expression fails, or when field \<open>i\<close> is the first whose
  \<open>parseField\<close> throws (the fields before it returned; nothing is asked of the fields after
  it), the result is \<open>valid = False\<close> with that error. The result is \<open>valid = True\<close> exactly
  when the expression splits and all five fields parse, and a returned result is never
  partial: it is valid exactly when it carries no error.
\<close>

theorem validateCron_first_failure_wins:
  "(parseCron expr = Throws e \<longrightarrow>
      validateCron expr = Returns \<lparr>valid = False, error = Some e\<rparr>)
   \<and> (parseCron expr = Returns parts \<and> i < 5
        \<and> (\<forall>j<i. returned (fieldChecks parts ! j))
        \<and> fieldChecks parts ! i = Throws e \<longrightarrow>
      validateCron expr = Returns \<lparr>valid = False, error = Some e\<rparr>)
   \<and> (validateCron expr = Returns \<lparr>valid = True, error = None\<rparr> \<longleftrightarrow>
        (\<exists>ps. parseCron expr = Returns ps \<and> (\<forall>r \<in> set (fieldChecks ps). returned r)))
   \<and> (validateCron expr = Returns v \<longrightarrow>
        (valid v \<longleftrightarrow> error v = None)
        \<and> (valid v \<longleftrightarrow>
             (\<exists>ps. parseCron expr = Returns ps \<and> (\<forall>r \<in> set (fieldChecks ps). returned r))))"
proof -
  have a: "validateCron expr = Returns \<lparr>valid = False, error = Some e\<rparr>"
    if "parseCron expr = Throws e"
    using that by (simp add: validateCron_def)
  have b: "validateCron expr = Returns \<lparr>valid = False, error = Some e\<rparr>"
    if "parseCron expr = Returns parts" "i < 5" "\<forall>j<i. returned (fieldChecks parts ! j)"
      "fieldChecks parts ! i = Throws e"
    using that(1) parseFields_first_throw[OF that(2,3,4)] by (simp add: validateCron_def)
  have c: "validateCron expr = Returns \<lparr>valid = True, error = None\<rparr> \<longleftrightarrow>
        (\<exists>ps. parseCron expr = Returns ps \<and> (\<forall>r \<in> set (fieldChecks ps). returned r))"
  proof (cases "parseCron expr")
    case (Returns ps)
    show ?thesis
      unfolding parseFields_returns_iff[symmetric]
      by (cases "parseFields ps") (auto simp: validateCron_def Returns)
  qed (simp_all add: validateCron_def)
  have d: "(valid v \<longleftrightarrow> error v = None)
      \<and> (valid v \<longleftrightarrow>
           (\<exists>ps. parseCron expr = Returns ps \<and> (\<forall>r \<in> set (fieldChecks ps). returned r)))"
    if v: "validateCron expr = Returns v"
  proof -
    have shape: "(valid v \<longleftrightarrow> error v = None) \<and> (valid v \<longleftrightarrow> v = \<lparr>valid = True, error = None\<rparr>)"
      using v by (auto simp: validateCron_def split: outcome.splits)
    then have "valid v \<longleftrightarrow> validateCron expr = Returns \<lparr>valid = True, error = None\<rparr>"
      using v by auto
    with shape show ?thesis
      unfolding c by blast
  qed
  show ?thesis
  proof (intro conjI impI)
    show "validateCron expr = Returns \<lparr>valid = False, error = Some e\<rparr>"
      if "parseCron expr = Throws e"
      using that by (rule a)
    show "validateCron expr = Returns \<lparr>valid = False, error = Some e\<rparr>"
      if "parseCron expr = Returns parts \<and> i < 5
        \<and> (\<forall>j<i. returned (fieldChecks parts ! j))
        \<and> fieldChecks parts ! i = Throws e"
      using that b by blast
    show "validateCron expr = Returns \<lparr>valid = True, error = None\<rparr> \<longleftrightarrow>
        (\<exists>ps. parseCron expr = Returns ps \<and> (\<forall>r \<in> set (fieldChecks ps). returned r))"
      by (rule c)
    show "valid v \<longleftrightarrow> error v = None" if "validateCron expr = Returns v"
      using d[OF that] by blast
    show "valid v \<longleftrightarrow>
           (\<exists>ps. parseCron expr = Returns ps \<and> (\<forall>r \<in> set (fieldChecks ps). returned r))"
      if "validateCron expr = Returns v"
      using d[OF that] by blast
  qed
qed

theorem validateCron_first_failure_wins_witness:
  "validateCron ''60 25 * * *'' = Returns \<lparr>valid = False, error = Some (OutOfRange (Fin 60) 0 59)\<rparr>
   \<and> validateCron ''0 25 * * *'' = Returns \<lparr>valid = False, error = Some (OutOfRange (Fin 25) 0 23)\<rparr>
   \<and> validateCron ''0 9 * * 1-5'' = Returns \<lparr>valid = True, error = None\<rparr>
   \<and> validateCron ''* * * *'' = Returns \<lparr>valid = False, error = Some (FieldCount 4)\<rparr>"
proof -
  define p1 where "p1 = \<lparr>minute = ''60'', hour = ''25'', dayOfMonth = ''*'', month = ''*'', dayOfWeek = ''*''\<rparr>"
  define p2 where "p2 = \<lparr>minute = ''0'', hour = ''25'', dayOfMonth = ''*'', month = ''*'', dayOfWeek = ''*''\<rparr>"
  define p3 where "p3 = \<lparr>minute = ''0'', hour = ''9'', dayOfMonth = ''*'', month = ''*'', dayOfWeek = ''1-5''\<rparr>"
  have rn: "replaceNames ''*'' MONTH_MAP = ''*''" "replaceNames ''*'' DAY_MAP = ''*''"
    "replaceNames ''1-5'' DAY_MAP = ''1-5''"
    by (simp_all add: names_eval)
  have sw: "splitWhiteSpace (trim ''60 25 * * *'') = [''60'', ''25'', ''*'', ''*'', ''*'']"
    "splitWhiteSpace (trim ''0 25 * * *'') = [''0'', ''25'', ''*'', ''*'', ''*'']"
    "splitWhiteSpace (trim ''0 9 * * 1-5'') = [''0'', ''9'', ''*'', ''*'', ''1-5'']"
    by (simp_all add: trim_def isWhiteSpace_def)
  have pc1: "parseCron ''60 25 * * *'' = Returns p1"
    unfolding parseCron_def Let_def sw p1_def by (simp add: rn)
  have pc2: "parseCron ''0 25 * * *'' = Returns p2"
    unfolding parseCron_def Let_def sw p2_def by (simp add: rn)
  have pc3: "parseCron ''0 9 * * 1-5'' = Returns p3"
    unfolding parseCron_def Let_def sw p3_def by (simp add: rn)
  have f60: "parseField ''60'' 0 59 = Throws (OutOfRange (Fin 60) 0 59)"
    by (simp add: field_eval)
  have f25: "parseField ''25'' 0 23 = Throws (OutOfRange (Fin 25) 0 23)"
    by (simp add: field_eval)
  have f0: "parseField ''0'' 0 59 = Returns \<lparr>values_of = [0], raw = ''0''\<rparr>"
    by (simp add: field_eval)
  have f9: "parseField ''9'' 0 23 = Returns \<lparr>values_of = [9], raw = ''9''\<rparr>"
    by (simp add: field_eval)
  have f15: "parseField ''1-5'' 0 7 = Returns \<lparr>values_of = [1, 2, 3, 4, 5], raw = ''1-5''\<rparr>"
    by (simp add: field_eval)
  have c1: "fieldChecks p1 ! 0 = Throws (OutOfRange (Fin 60) 0 59)"
    by (simp add: fieldChecks_def p1_def f60)
  have c2: "fieldChecks p2 ! 1 = Throws (OutOfRange (Fin 25) 0 23)"
    "\<forall>j<1. returned (fieldChecks p2 ! j)"
    by (simp_all add: fieldChecks_def p2_def f25 f0 returned_def)
  have c3: "\<forall>r \<in> set (fieldChecks p3). returned r"
    by (simp add: fieldChecks_def p3_def f0 f9 f15 parseField_star returned_def)
  have "validateCron ''60 25 * * *'' = Returns \<lparr>valid = False, error = Some (OutOfRange (Fin 60) 0 59)\<rparr>"
    using validateCron_first_failure_wins[of "''60 25 * * *''" "OutOfRange (Fin 60) 0 59" p1 0]
      pc1 c1 by simp
  moreover
  have "validateCron ''0 25 * * *'' = Returns \<lparr>valid = False, error = Some (OutOfRange (Fin 25) 0 23)\<rparr>"
    using validateCron_first_failure_wins[of "''0 25 * * *''" "OutOfRange (Fin 25) 0 23" p2 1]
      pc2 c2 by simp
  moreover
  have "validateCron ''0 9 * * 1-5'' = Returns \<lparr>valid = True, error = None\<rparr>"
    using validateCron_first_failure_wins[of "''0 9 * * 1-5''"] pc3 c3 by blast
  moreover
  have "parseCron ''* * * *'' = Throws (FieldCount 4)"
    by (simp add: parseCron_def trim_def isWhiteSpace_def)
  then have "validateCron ''* * * *'' = Returns \<lparr>valid = False, error = Some (FieldCount 4)\<rparr>"
    using validateCron_first_failure_wins[of "''* * * *''" "FieldCount 4"] by blast
  ultimately show ?thesis by blast
qed

section \<open>Properties of explainCron\<close>

lemma join_head: "\<exists>rest. join sep (a # xs) = a @ rest"
  by (cases xs) simp_all

lemma parseFields_eval:
  "parseField (minute p) 0 59 = Returns f0 \<Longrightarrow> parseField (hour p) 0 23 = Returns f1 \<Longrightarrow>
   parseField (dayOfMonth p) 1 31 = Returns f2 \<Longrightarrow> parseField (month p) 1 12 = Returns f3 \<Longrightarrow>
   parseField (dayOfWeek p) 0 7 = Returns f4 \<Longrightarrow> parseFields p = Returns (f0, f1, f2, f3, f4)"
  by (simp add: parseFields_def)

text \<open>
  Claim C7. The function that renders the sub-terms of the hour field passes a sub-term
  through as raw text only when it contains \<open>-\<close>; every other sub-term goes through
  \<open>parseInt\<close> and is written as a clock time. So a step sub-term without a range is not
  passed through: the hour field \<open>5/2\<close> is rendered as \<open>5:00 AM\<close>, the clock time of its
  leading integer, and the sub-term \<open>*/2\<close> after a comma as \<open>NaN:00 AM\<close>. \<open>explainField\<close>,
  which renders the other fields, describes the same sub-term \<open>5/2\<close> as a step. Singletons
  and ranges are rendered as the claim says.
\<close>

theorem step_hour_term_is_rendered_as_clock_time:
  "explainCron ''0 5/2 * * *'' = Returns ''at minute 0 at 5:00 AM''
   \<and> hourVal ''5/2'' = ''5:00 AM''
   \<and> hourClause ''5,*/2'' = ''at 5:00 AM, NaN:00 AM''
   \<and> explainField ''5/2'' 0 23 None = ''every 2 starting at 5''
   \<and> hourClause ''0,12,13,5,1-3,1-5/2'' = ''at 12:00 AM, 12:00 PM, 1:00 PM, 5:00 AM, 1-3, 1-5/2''"
proof -
  define p where "p = \<lparr>minute = ''0'', hour = ''5/2'', dayOfMonth = ''*'', month = ''*'', dayOfWeek = ''*''\<rparr>"
  have sw: "splitWhiteSpace (trim ''0 5/2 * * *'') = [''0'', ''5/2'', ''*'', ''*'', ''*'']"
    by (simp add: trim_def isWhiteSpace_def)
  have rn: "replaceNames ''*'' MONTH_MAP = ''*''" "replaceNames ''*'' DAY_MAP = ''*''"
    by (simp_all add: names_eval)
  have pc: "parseCron ''0 5/2 * * *'' = Returns p"
    unfolding parseCron_def Let_def sw p_def by (simp add: rn)
  have f0: "parseField ''0'' 0 59 = Returns \<lparr>values_of = [0], raw = ''0''\<rparr>"
    by (simp add: field_eval)
  have f1: "parseField ''5/2'' 0 23
      = Returns \<lparr>values_of = [5, 7, 9, 11, 13, 15, 17, 19, 21, 23], raw = ''5/2''\<rparr>"
    by (simp add: field_eval)
  have pf: "\<exists>fs. parseFields p = Returns fs"
    using parseFields_eval[of p] f0 f1 by (simp add: p_def parseField_star)
  have hv: "hourVal ''5/2'' = ''5:00 AM''"
    by (simp add: explain_eval)
  have e: "explainCron ''0 5/2 * * *'' = Returns ''at minute 0 at 5:00 AM''"
    using pf unfolding explainCron_def pc
    by (auto simp: p_def minuteClause_def hourClause_def hv dayOfMonthClause_def monthClause_def
        dayOfWeekClause_def startsWith_def explainField_def explainPart_def jsIncludes_def)
  have nan: "hourVal ''*/2'' = ''NaN:00 AM''"
    by (simp add: explain_eval)
  have v5: "hourVal ''5'' = ''5:00 AM''"
    by (simp add: explain_eval)
  have c: "hourClause ''5,*/2'' = ''at 5:00 AM, NaN:00 AM''"
    by (simp add: hourClause_def startsWith_def v5 nan)
  have s: "explainField ''5/2'' 0 23 None = ''every 2 starting at 5''"
    by (simp add: explain_eval)
  have vs: "hourVal ''0'' = ''12:00 AM''" "hourVal ''12'' = ''12:00 PM''"
    "hourVal ''13'' = ''1:00 PM''" "hourVal ''1-3'' = ''1-3''" "hourVal ''1-5/2'' = ''1-5/2''"
    by (simp_all add: explain_eval)
  have l: "hourClause ''0,12,13,5,1-3,1-5/2''
      = ''at 12:00 AM, 12:00 PM, 1:00 PM, 5:00 AM, 1-3, 1-5/2''"
    by (simp add: hourClause_def startsWith_def vs v5)
  from e hv c s l show ?thesis by blast
qed

text \<open>
  Claim C8. The day-of-week value 7 is outside \<open>DAY_NAMES\<close>. As a singleton it falls back
  to the numeral (\<open>names[val] || part\<close>), but as a range endpoint, with or without a step,
  the lookup has no fallback and the template renders \<open>undefined\<close>.
\<close>

theorem day_seven_in_range_renders_undefined:
  "explainCron ''0 9 * * 5-7'' = Returns ''at minute 0 at 9:00 AM on Friday through undefined''
   \<and> explainCron ''0 9 * * 7'' = Returns ''at minute 0 at 9:00 AM on 7''
   \<and> dayOfWeekClause ''5-7/2'' = [''on every 2 from Friday through undefined'']"
proof -
  define p where "p = \<lparr>minute = ''0'', hour = ''9'', dayOfMonth = ''*'', month = ''*'', dayOfWeek = ''5-7''\<rparr>"
  define q where "q = \<lparr>minute = ''0'', hour = ''9'', dayOfMonth = ''*'', month = ''*'', dayOfWeek = ''7''\<rparr>"
  have sw: "splitWhiteSpace (trim ''0 9 * * 5-7'') = [''0'', ''9'', ''*'', ''*'', ''5-7'']"
    "splitWhiteSpace (trim ''0 9 * * 7'') = [''0'', ''9'', ''*'', ''*'', ''7'']"
    by (simp_all add: trim_def isWhiteSpace_def)
  have rn: "replaceNames ''*'' MONTH_MAP = ''*''" "replaceNames ''5-7'' DAY_MAP = ''5-7''"
    "replaceNames ''7'' DAY_MAP = ''7''"
    by (simp_all add: names_eval)
  have pc: "parseCron ''0 9 * * 5-7'' = Returns p" "parseCron ''0 9 * * 7'' = Returns q"
    unfolding parseCron_def Let_def sw p_def q_def by (simp_all add: rn)
  have f0: "parseField ''0'' 0 59 = Returns \<lparr>values_of = [0], raw = ''0''\<rparr>"
    by (simp add: field_eval)
  have f1: "parseField ''9'' 0 23 = Returns \<lparr>values_of = [9], raw = ''9''\<rparr>"
    by (simp add: field_eval)
  have f4: "parseField ''5-7'' 0 7 = Returns \<lparr>values_of = [5, 6, 7], raw = ''5-7''\<rparr>"
    "parseField ''7'' 0 7 = Returns \<lparr>values_of = [7], raw = ''7''\<rparr>"
    by (simp_all add: field_eval)
  have pf: "\<exists>fs. parseFields p = Returns fs" "\<exists>fs. parseFields q = Returns fs"
    using parseFields_eval[of p] parseFields_eval[of q] f0 f1 f4
    by (simp_all add: p_def q_def parseField_star)
  have m: "minuteClause ''0'' = ''at minute 0''"
    by (simp add: explain_eval)
  have h: "hourClause ''9'' = ''at 9:00 AM''"
    by (simp add: explain_eval)
  have d1: "dayOfWeekClause ''5-7'' = [''on Friday through undefined'']"
    by (simp add: explain_eval)
  have d2: "dayOfWeekClause ''7'' = [''on 7'']"
    by (simp add: explain_eval)
  have e1: "explainCron ''0 9 * * 5-7'' = Returns ''at minute 0 at 9:00 AM on Friday through undefined''"
    using pf(1) unfolding explainCron_def pc
    by (auto simp: p_def m h d1 dayOfMonthClause_def monthClause_def)
  have e2: "explainCron ''0 9 * * 7'' = Returns ''at minute 0 at 9:00 AM on 7''"
    using pf(2) unfolding explainCron_def pc
    by (auto simp: q_def m h d2 dayOfMonthClause_def monthClause_def)
  have d3: "dayOfWeekClause ''5-7/2'' = [''on every 2 from Friday through undefined'']"
    by (simp add: explain_eval)
  from e1 e2 d3 show ?thesis by simp
qed

section \<open>Properties of the calendar\<close>

text \<open>The year after \<open>y\<close> starts 365 or 366 days after \<open>y\<close> does; a month starts where the
  month before it ends; rebuilding a date from overflowing fields keeps its time value and
  yields a valid date.\<close>

lemma div_succ:
  fixes a k :: int
  assumes "1 < k"
  shows "(a + 1) div k = a div k + (if (a + 1) mod k = 0 then 1 else 0)"
proof -
  have b: "0 \<le> a mod k" "a mod k < k"
    using assms by simp_all
  have d: "(a + 1) div k = a div k + 1 div k + (a mod k + 1 mod k) div k"
    by (rule div_add1_eq)
  have one: "1 div k = 0" "1 mod k = 1"
    using assms by simp_all
  have m: "(a + 1) mod k = (a mod k + 1) mod k"
    by (simp add: mod_add_left_eq)
  show ?thesis
  proof (cases "a mod k = k - 1")
    case True
    then have "(a mod k + 1) div k = 1" "(a + 1) mod k = 0"
      using assms m by simp_all
    with d one show ?thesis by simp
  next
    case False
    with b have lt: "a mod k + 1 < k" by linarith
    then have "(a mod k + 1) div k = 0" "(a mod k + 1) mod k = a mod k + 1"
      using b by simp_all
    with d one m b show ?thesis by simp
  qed
qed

lemma mod_shift:
  fixes y c k :: int
  assumes "c mod k = 0"
  shows "(y - c) mod k = y mod k"
proof -
  have "(y - c) mod k = (y mod k - c mod k) mod k"
    by (rule mod_diff_eq[symmetric])
  with assms show ?thesis by simp
qed

lemma leap_div_4: "(y + 1 - 1969) div 4 = (y - 1969) div 4 + (if y mod 4 = 0 then 1 else 0)" for y :: int
proof -
  have "(y - 1969 + 1) mod 4 = (y - 1968) mod 4" by (simp add: algebra_simps)
  also have "\<dots> = y mod 4" by (rule mod_shift) simp
  finally have m: "(y - 1969 + 1) mod 4 = y mod 4" .
  have "y + 1 - 1969 = (y - 1969) + 1" by simp
  then show ?thesis using div_succ[of 4 "y - 1969"] m by simp
qed

lemma mod_400_100: "y mod 400 = 0 \<Longrightarrow> y mod 100 = 0" for y :: int
proof -
  assume "y mod 400 = 0"
  then have "400 dvd y" by (simp add: dvd_eq_mod_eq_0)
  moreover have "(100::int) dvd 400" by simp
  ultimately have "100 dvd y" by (rule dvd_trans[rotated])
  then show ?thesis by simp
qed

lemma leap_div_100: "(y + 1 - 1901) div 100 = (y - 1901) div 100 + (if y mod 100 = 0 then 1 else 0)" for y :: int
proof -
  have "(y - 1901 + 1) mod 100 = (y - 1900) mod 100" by (simp add: algebra_simps)
  also have "\<dots> = y mod 100" by (rule mod_shift) simp
  finally have m: "(y - 1901 + 1) mod 100 = y mod 100" .
  have "y + 1 - 1901 = (y - 1901) + 1" by simp
  then show ?thesis using div_succ[of 100 "y - 1901"] m by simp
qed

lemma leap_div_400: "(y + 1 - 1601) div 400 = (y - 1601) div 400 + (if y mod 400 = 0 then 1 else 0)" for y :: int
proof -
  have "(y - 1601 + 1) mod 400 = (y - 1600) mod 400" by (simp add: algebra_simps)
  also have "\<dots> = y mod 400" by (rule mod_shift) simp
  finally have m: "(y - 1601 + 1) mod 400 = y mod 400" .
  have "y + 1 - 1601 = (y - 1601) + 1" by simp
  then show ?thesis using div_succ[of 400 "y - 1601"] m by simp
qed

lemma mod_100_4: "y mod 100 = 0 \<Longrightarrow> y mod 4 = 0" for y :: int
proof -
  assume "y mod 100 = 0"
  then have "100 dvd y" by (simp add: dvd_eq_mod_eq_0)
  moreover have "(4::int) dvd 100" by simp
  ultimately have "4 dvd y" by (rule dvd_trans[rotated])
  then show ?thesis by simp
qed

lemma dayFromYear_Suc:
  "dayFromYear (y + 1) = dayFromYear y + (if inLeapYear y then 366 else 365)"
proof -
  have "dayFromYear (y + 1)
      = 365 * (y - 1970) + 365 + (y + 1 - 1969) div 4 - (y + 1 - 1901) div 100
        + (y + 1 - 1601) div 400"
    by (simp add: dayFromYear_def)
  also have "\<dots> = dayFromYear y + 365 + (if y mod 4 = 0 then 1 else 0)
        - (if y mod 100 = 0 then 1 else 0) + (if y mod 400 = 0 then 1 else 0)"
    unfolding leap_div_4 leap_div_100 leap_div_400 by (simp add: dayFromYear_def)
  also have "\<dots> = dayFromYear y + (if inLeapYear y then 366 else 365)"
    using mod_400_100[of y] mod_100_4[of y] by (auto simp: inLeapYear_def)
  finally show ?thesis .
qed

lemma daysBeforeMonth_Suc: "daysBeforeMonth y (Suc m) = daysBeforeMonth y m + daysInMonth y m"
  by (simp add: daysBeforeMonth_def)

lemma daysBeforeMonth_0: "daysBeforeMonth y 0 = 0"
  by (simp add: daysBeforeMonth_def)

lemma daysBeforeMonth_12: "daysBeforeMonth y 12 = (if inLeapYear y then 366 else 365)"
proof -
  have "[0..<12] = [0,1,2,3,4,5,6,7,8,9,10,11::nat]"
    by (simp add: upt_rec)
  then show ?thesis
    by (simp add: daysBeforeMonth_def daysInMonth_def)
qed

lemma monthStart_next:
  assumes "m < 12"
  shows "monthStart y (m + 1) = monthStart y m + int (daysInMonth y m)"
proof (cases "m = 11")
  case True
  have "monthStart y 12 = dayFromYear y + int (daysBeforeMonth y 12)"
    by (simp add: monthStart_def dayFromYear_Suc daysBeforeMonth_0 daysBeforeMonth_12)
  also have "daysBeforeMonth y 12 = daysBeforeMonth y 11 + daysInMonth y 11"
    using daysBeforeMonth_Suc[of y 11] by simp
  finally have "monthStart y 12 = monthStart y 11 + int (daysInMonth y 11)"
    by (simp add: monthStart_def)
  with True show ?thesis by simp
next
  case False
  with assms have "m + 1 < 12" by simp
  then show ?thesis
    using assms daysBeforeMonth_Suc[of y m] by (simp add: monthStart_def)
qed

lemma monthStart_norm: "monthStart (y + int (mo div 12)) (mo mod 12) = monthStart y mo"
  by (simp add: monthStart_def)

lemma rollDays_props:
  assumes "m < 12" and "1 \<le> d" and "rollDays y m d = (y', m', d')"
  shows "m' < 12 \<and> 1 \<le> d' \<and> d' \<le> daysInMonth y' m'
         \<and> monthStart y' m' + int d' = monthStart y m + int d"
  using assms
proof (induction y m d rule: rollDays.induct)
  case (1 y m d)
  show ?case
  proof (cases "daysInMonth y m < d")
    case over: True
    show ?thesis
    proof (cases "m = 11")
      case True
      have r: "rollDays (y + 1) 0 (d - daysInMonth y m) = (y', m', d')"
        using "1.prems" over True by (subst (asm) rollDays.simps) simp
      have c: "m < 12 \<and> daysInMonth y m < d"
        using "1.prems"(1) over by simp
      have ih: "m' < 12 \<and> 1 \<le> d' \<and> d' \<le> daysInMonth y' m'
         \<and> monthStart y' m' + int d' = monthStart (y + 1) 0 + int (d - daysInMonth y m)"
        using "1.IH"(1)[OF c True _ _ r] over by simp
      have "monthStart (y + 1) 0 = monthStart y 12"
        by (simp add: monthStart_def)
      also have "\<dots> = monthStart y 11 + int (daysInMonth y 11)"
        using monthStart_next[of 11 y] by simp
      finally show ?thesis
        using ih over True by simp
    next
      case False
      have r: "rollDays y (m + 1) (d - daysInMonth y m) = (y', m', d')"
        using "1.prems" over False by (subst (asm) rollDays.simps) simp
      have c: "m < 12 \<and> daysInMonth y m < d"
        using "1.prems"(1) over by simp
      have ih: "m' < 12 \<and> 1 \<le> d' \<and> d' \<le> daysInMonth y' m'
         \<and> monthStart y' m' + int d' = monthStart y (m + 1) + int (d - daysInMonth y m)"
        using "1.IH"(2)[OF c False _ _ r] "1.prems"(1) over False by simp
      show ?thesis
        using ih over monthStart_next[OF "1.prems"(1), of y] by simp
    qed
  next
    case False
    then have "rollDays y m d = (y, m, d)"
      by (subst rollDays.simps) simp
    with "1.prems" False show ?thesis by simp
  qed
qed

lemma time_fields:
  fixes tod :: nat
  shows "makeTime (tod div 3600000) (tod div 60000 mod 60) (tod div 1000 mod 60) (tod mod 1000) = tod"
proof -
  define t1 where "t1 = tod div 1000"
  define t2 where "t2 = t1 div 60"
  define t3 where "t3 = t2 div 60"
  have e2: "tod div 60000 = t2"
    unfolding t2_def t1_def by (simp add: div_mult2_eq)
  have e3: "tod div 3600000 = t3"
    unfolding t3_def t2_def t1_def by (simp add: div_mult2_eq)
  have "makeTime t3 (t2 mod 60) (t1 mod 60) (tod mod 1000)
      = ((t3 * 60 + t2 mod 60) * 60 + t1 mod 60) * 1000 + tod mod 1000"
    by (simp add: makeTime_def)
  also have "t3 * 60 + t2 mod 60 = t2"
    unfolding t3_def by simp
  also have "t2 * 60 + t1 mod 60 = t1"
    unfolding t2_def by simp
  also have "t1 * 1000 + tod mod 1000 = tod"
    unfolding t1_def by simp
  finally show ?thesis
    unfolding e2 e3 t1_def[symmetric] .
qed

lemma hours_bound: "tod < msPerDay \<Longrightarrow> tod div 3600000 < 24"
  by (simp add: msPerDay_def less_mult_imp_div_less)

lemma prev_month_props:
  assumes "mn < 12"
    and "(y', m', d') = (if mn = 0 then (ym - 1, 11, 31) else (ym, mn - 1, daysInMonth ym (mn - 1)))"
  shows "m' < 12 \<and> 1 \<le> d' \<and> d' \<le> daysInMonth y' m'
         \<and> monthStart y' m' + int d' = monthStart ym mn"
proof (cases "mn = 0")
  case True
  have "monthStart (ym - 1) 12 = monthStart (ym - 1) 11 + int (daysInMonth (ym - 1) 11)"
    using monthStart_next[of 11 "ym - 1"] by simp
  moreover have "monthStart (ym - 1) 12 = monthStart ym 0"
    by (simp add: monthStart_def)
  ultimately show ?thesis
    using assms True by (simp add: daysInMonth_def)
next
  case False
  then have "monthStart ym (mn - 1 + 1) = monthStart ym (mn - 1) + int (daysInMonth ym (mn - 1))"
    using assms(1) by (intro monthStart_next) simp
  moreover have "mn - 1 < 12" "0 < daysInMonth ym (mn - 1)"
    using assms(1) by (simp_all add: daysInMonth_def)
  ultimately show ?thesis
    using assms(2) False by simp
qed

lemma makeDate_props:
  "validDate (makeDate y mo dt h mi s msec)"
  "dayNumber (makeDate y mo dt h mi s msec)
     = monthStart y mo + int dt + int (makeTime h mi s msec div msPerDay) - 1"
  "timeOfDay (makeDate y mo dt h mi s msec) = makeTime h mi s msec mod msPerDay"
proof -
  define total where "total = makeTime h mi s msec"
  define tod where "tod = total mod msPerDay"
  define ym where "ym = y + int (mo div 12)"
  define mn where "mn = mo mod 12"
  define days where "days = dt + total div msPerDay"
  obtain y' m' d' where r:
    "(y', m', d') = (if days = 0 then
               (if mn = 0 then (ym - 1, 11, 31) else (ym, mn - 1, daysInMonth ym (mn - 1)))
             else rollDays ym mn days)"
    by (metis prod_cases3)
  have mn: "mn < 12" by (simp add: mn_def)
  have p: "m' < 12 \<and> 1 \<le> d' \<and> d' \<le> daysInMonth y' m'
         \<and> monthStart y' m' + int d' = monthStart ym mn + int days"
  proof (cases "days = 0")
    case True
    with r prev_month_props[OF mn, of y' m' d' ym] show ?thesis by simp
  next
    case False
    with r have "rollDays ym mn days = (y', m', d')" by simp
    from rollDays_props[OF mn _ this] False show ?thesis by simp
  qed
  have md: "makeDate y mo dt h mi s msec
      = \<lparr>getFullYear = y', getMonth = m', getDate = d',
          getHours = tod div 3600000, getMinutes = tod div 60000 mod 60,
          getSeconds = tod div 1000 mod 60, getMilliseconds = tod mod 1000\<rparr>"
    unfolding makeDate_def Let_def total_def[symmetric] tod_def[symmetric] ym_def[symmetric]
      mn_def[symmetric] days_def[symmetric] r[symmetric]
    by simp
  have todlt: "tod < msPerDay"
    by (simp add: tod_def msPerDay_def)
  show "validDate (makeDate y mo dt h mi s msec)"
    unfolding md validDate_def using p hours_bound[OF todlt] by simp
  have ms: "monthStart ym mn = monthStart y mo"
    unfolding ym_def mn_def by (rule monthStart_norm)
  show "dayNumber (makeDate y mo dt h mi s msec)
     = monthStart y mo + int dt + int (makeTime h mi s msec div msPerDay) - 1"
    unfolding md dayNumber_def using p ms by (simp add: days_def total_def)
  show "timeOfDay (makeDate y mo dt h mi s msec) = makeTime h mi s msec mod msPerDay"
    unfolding md timeOfDay_def by (simp add: time_fields tod_def total_def)
qed

lemma makeDate_timeValue:
  "timeValue (makeDate y mo dt h mi s msec)
     = (monthStart y mo + int dt - 1) * int msPerDay + int (makeTime h mi s msec)"
proof -
  have "int (makeTime h mi s msec)
      = int (makeTime h mi s msec div msPerDay) * int msPerDay
        + int (makeTime h mi s msec mod msPerDay)"
    by (metis div_mult_mod_eq of_nat_add of_nat_mult)
  then show ?thesis
    unfolding timeValue_def makeDate_props by (simp add: algebra_simps)
qed

lemma makeDate_fields:
  "getHours (makeDate y mo dt h mi s msec) = makeTime h mi s msec mod msPerDay div 3600000"
  "getMinutes (makeDate y mo dt h mi s msec) = makeTime h mi s msec mod msPerDay div 60000 mod 60"
  "getSeconds (makeDate y mo dt h mi s msec) = makeTime h mi s msec mod msPerDay div 1000 mod 60"
  "getMilliseconds (makeDate y mo dt h mi s msec) = makeTime h mi s msec mod msPerDay mod 1000"
  unfolding makeDate_def Let_def by (simp_all split: prod.splits)

lemma valid_timeOfDay: "validDate c \<Longrightarrow> timeOfDay c < msPerDay"
  by (simp add: validDate_def timeOfDay_def makeTime_def msPerDay_def)

lemma valid_tod_hour: "validDate c \<Longrightarrow> timeOfDay c < (getHours c + 1) * 3600000"
  by (simp add: validDate_def timeOfDay_def makeTime_def)

lemma setters_valid:
  "validDate (setSeconds c s msec)" "validDate (setMinutes c mi)"
  "validDate (setHours c h mi s msec)" "validDate (setDate c dt)" "validDate (setMonth c mo dt)"
  by (simp_all add: setSeconds_def setMinutes_def setHours_def setDate_def setMonth_def
      makeDate_props)

lemma timeValue_fields:
  "timeValue c = (monthStart (getFullYear c) (getMonth c) + int (getDate c) - 1) * int msPerDay
                 + int (makeTime (getHours c) (getMinutes c) (getSeconds c) (getMilliseconds c))"
  by (simp add: timeValue_def dayNumber_def timeOfDay_def)

lemma timeValue_setMinutes_succ:
  "timeValue (setMinutes c (getMinutes c + 1)) = timeValue c + 60000"
  unfolding setMinutes_def makeDate_timeValue timeValue_fields[of c]
  by (simp add: makeTime_def algebra_simps)

lemma timeValue_setSeconds_zero:
  "timeValue (setSeconds c 0 0) = timeValue c - int (getSeconds c * 1000 + getMilliseconds c)"
  unfolding setSeconds_def makeDate_timeValue timeValue_fields[of c]
  by (simp add: makeTime_def algebra_simps)

lemma timeValue_midnight:
  "timeValue (setHours c 0 0 0 0) = dayNumber c * int msPerDay"
  unfolding setHours_def makeDate_timeValue
  by (simp add: makeTime_def dayNumber_def)

lemma dayNumber_setMonth:
  assumes "validDate c"
  shows "dayNumber (setMonth c mo dt) = monthStart (getFullYear c) mo + int dt - 1"
proof -
  have "makeTime (getHours c) (getMinutes c) (getSeconds c) (getMilliseconds c) div msPerDay = 0"
    using valid_timeOfDay[OF assms] by (simp add: timeOfDay_def)
  then show ?thesis
    unfolding setMonth_def makeDate_props by simp
qed

lemma dayNumber_setDate:
  assumes "validDate c"
  shows "dayNumber (setDate c dt) = monthStart (getFullYear c) (getMonth c) + int dt - 1"
proof -
  have "makeTime (getHours c) (getMinutes c) (getSeconds c) (getMilliseconds c) div msPerDay = 0"
    using valid_timeOfDay[OF assms] by (simp add: timeOfDay_def)
  then show ?thesis
    unfolding setDate_def makeDate_props by simp
qed

lemma month_step:
  assumes "validDate c"
  shows "timeValue c < timeValue (setHours (setMonth c (getMonth c + 1) 1) 0 0 0 0)"
proof -
  have m: "getMonth c < 12" and d: "getDate c \<le> daysInMonth (getFullYear c) (getMonth c)"
    using assms by (simp_all add: validDate_def)
  have "timeValue (setHours (setMonth c (getMonth c + 1) 1) 0 0 0 0)
      = monthStart (getFullYear c) (getMonth c + 1) * int msPerDay"
    unfolding timeValue_midnight dayNumber_setMonth[OF assms] by simp
  also have "\<dots> = (monthStart (getFullYear c) (getMonth c)
        + int (daysInMonth (getFullYear c) (getMonth c))) * int msPerDay"
    using monthStart_next[OF m, of "getFullYear c"] by simp
  finally have new: "timeValue (setHours (setMonth c (getMonth c + 1) 1) 0 0 0 0)
      = (monthStart (getFullYear c) (getMonth c)
        + int (daysInMonth (getFullYear c) (getMonth c))) * int msPerDay" .
  have "timeValue c < (dayNumber c + 1) * int msPerDay"
    using valid_timeOfDay[OF assms] by (simp add: timeValue_def algebra_simps)
  also have "dayNumber c + 1 \<le> monthStart (getFullYear c) (getMonth c)
        + int (daysInMonth (getFullYear c) (getMonth c))"
    using d by (simp add: dayNumber_def)
  then have "(dayNumber c + 1) * int msPerDay \<le> (monthStart (getFullYear c) (getMonth c)
        + int (daysInMonth (getFullYear c) (getMonth c))) * int msPerDay"
    by (intro mult_right_mono) simp_all
  finally show ?thesis
    unfolding new .
qed

lemma day_step:
  assumes "validDate c"
  shows "timeValue c < timeValue (setHours (setDate c (getDate c + 1)) 0 0 0 0)"
proof -
  have "timeValue (setHours (setDate c (getDate c + 1)) 0 0 0 0) = (dayNumber c + 1) * int msPerDay"
    unfolding timeValue_midnight dayNumber_setDate[OF assms] by (simp add: dayNumber_def)
  moreover have "timeValue c < (dayNumber c + 1) * int msPerDay"
    using valid_timeOfDay[OF assms] by (simp add: timeValue_def algebra_simps)
  ultimately show ?thesis by simp
qed

lemma whole_hours_minutes:
  "k * 3600000 mod msPerDay div 60000 mod 60 = (0::nat)"
proof -
  have "k * 3600000 mod msPerDay = k * 3600000 mod (24 * 3600000)"
    by (simp add: msPerDay_def)
  also have "\<dots> = (k mod 24) * 3600000"
    by (rule mult_mod_left[symmetric])
  finally have "k * 3600000 mod msPerDay div 60000 = (k mod 24) * 60"
    by simp
  then show ?thesis by simp
qed

lemma hour_step:
  assumes "validDate c"
  shows "timeValue c < timeValue (setMinutes (setHours c (getHours c + 1) 0 0 0) 0)"
proof -
  define c1 where "c1 = setHours c (getHours c + 1) 0 0 0"
  have tv1: "timeValue c1 = dayNumber c * int msPerDay + int ((getHours c + 1) * 3600000)"
    unfolding c1_def setHours_def makeDate_timeValue
    by (simp add: makeTime_def dayNumber_def)
  have "makeTime (getHours c + 1) 0 0 0 = (getHours c + 1) * 3600000"
    by (simp add: makeTime_def)
  then have min0: "getMinutes c1 = 0"
    unfolding c1_def setHours_def makeDate_fields
    by (simp only: whole_hours_minutes)
  have "timeValue (setMinutes c1 0) = timeValue c1"
    unfolding setMinutes_def makeDate_timeValue timeValue_fields[of c1]
    by (simp add: makeTime_def min0)
  moreover have "timeValue c < dayNumber c * int msPerDay + int ((getHours c + 1) * 3600000)"
    using valid_tod_hour[OF assms] unfolding timeValue_def by linarith
  ultimately show ?thesis
    unfolding c1_def[symmetric] tv1 by simp
qed

lemma loopBody_step:
  assumes "validDate c" and "loopBody sch c rs = (c', rs')"
  shows "validDate c' \<and> timeValue c < timeValue c' \<and> (rs' = rs \<or> rs' = rs @ [c])"
proof -
  consider (month) "\<not> numIncludes (months sch) (getMonth c + 1)"
    | (hour) "numIncludes (months sch) (getMonth c + 1)" "\<not> numIncludes (hoursOf sch) (getHours c)"
    | (day) "numIncludes (months sch) (getMonth c + 1)" "numIncludes (hoursOf sch) (getHours c)"
        "\<not> dayMatch sch (getDate c) (getDay c)"
    | (minute) "numIncludes (months sch) (getMonth c + 1)" "numIncludes (hoursOf sch) (getHours c)"
        "dayMatch sch (getDate c) (getDay c)"
    by blast
  then show ?thesis
  proof cases
    case month
    with assms(2) have "c' = setHours (setMonth c (getMonth c + 1) 1) 0 0 0 0" "rs' = rs"
      by (simp_all add: loopBody_def Let_def)
    then show ?thesis
      using month_step[OF assms(1)] by (simp add: setters_valid)
  next
    case hour
    with assms(2) have "c' = setMinutes (setHours c (getHours c + 1) 0 0 0) 0" "rs' = rs"
      by (simp_all add: loopBody_def Let_def)
    then show ?thesis
      using hour_step[OF assms(1)] by (simp add: setters_valid)
  next
    case day
    with assms(2) have "c' = setHours (setDate c (getDate c + 1)) 0 0 0 0" "rs' = rs"
      by (simp_all add: loopBody_def Let_def)
    then show ?thesis
      using day_step[OF assms(1)] by (simp add: setters_valid)
  next
    case minute
    with assms(2) have "c' = setMinutes c (getMinutes c + 1)"
      "rs' = (if numIncludes (minutesOf sch) (getMinutes c) then rs @ [c] else rs)"
      by (simp_all add: loopBody_def Let_def)
    then show ?thesis
      using timeValue_setMinutes_succ[of c] by (simp add: setters_valid)
  qed
qed

section \<open>Properties of getNextRuns\<close>

lemma loopBody_records:
  assumes "loopBody sch c rs = (c', rs')"
  shows "rs' = rs \<or> (rs' = rs @ [c] \<and> matches sch c)"
  using assms unfolding loopBody_def Let_def matches_def
  by (auto split: if_splits)

lemma searchLoop_inv:
  assumes "validDate c" and "sorted_wrt (<) (map timeValue rs)"
    and "\<forall>r \<in> set rs. lo \<le> timeValue r \<and> timeValue r < timeValue c \<and> matches sch r \<and> validDate r"
    and "lo \<le> timeValue c" and "length rs \<le> count"
  shows "sorted_wrt (<) (map timeValue (searchLoop sch count c rs it))
         \<and> (\<forall>r \<in> set (searchLoop sch count c rs it). lo \<le> timeValue r \<and> matches sch r \<and> validDate r)
         \<and> length (searchLoop sch count c rs it) \<le> count"
  using assms
proof (induction sch count c rs it rule: searchLoop.induct)
  case (1 sch count current results iterations)
  show ?case
  proof (cases "length results < count \<and> iterations < maxIterations")
    case True
    obtain c' rs' where lb: "loopBody sch current results = (c', rs')"
      by fastforce
    have eq: "searchLoop sch count current results iterations
        = searchLoop sch count c' rs' (iterations + 1)"
      using True lb by (subst searchLoop.simps) simp
    from loopBody_step[OF "1.prems"(1) lb]
    have v: "validDate c'" and lt: "timeValue current < timeValue c'"
      by simp_all
    from loopBody_records[OF lb]
    have rec: "rs' = results \<or> (rs' = results @ [current] \<and> matches sch current)" .
    have s: "sorted_wrt (<) (map timeValue rs')"
      using rec "1.prems"(2,3) by (auto simp: sorted_wrt_append)
    have b: "\<forall>r \<in> set rs'. lo \<le> timeValue r \<and> timeValue r < timeValue c' \<and> matches sch r \<and> validDate r"
      using rec "1.prems"(1,3,4) lt by (auto intro: less_trans)
    have l: "length rs' \<le> count"
      using rec True by auto
    have lo: "lo \<le> timeValue c'"
      using "1.prems"(4) lt by simp
    show ?thesis
      unfolding eq using "1.IH"[OF True lb[symmetric] v s b lo l] .
  next
    case False
    then have "searchLoop sch count current results iterations = results"
      by (subst searchLoop.simps) auto
    with "1.prems" show ?thesis by auto
  qed
qed


lemma whole_minutes:
  "k * 60000 mod msPerDay div 1000 mod 60 = (0::nat)" "k * 60000 mod msPerDay mod 1000 = (0::nat)"
proof -
  have "k * 60000 mod msPerDay = k * 60000 mod (1440 * 60000)"
    by (simp add: msPerDay_def)
  also have "\<dots> = (k mod 1440) * 60000"
    by (rule mult_mod_left[symmetric])
  finally have e: "k * 60000 mod msPerDay = (k mod 1440) * 60000" .
  have "(k mod 1440) * 60000 div 1000 = (k mod 1440) * 60"
    by simp
  then show "k * 60000 mod msPerDay div 1000 mod 60 = 0"
    unfolding e by simp
  have "(k mod 1440) * 60000 = ((k mod 1440) * 60) * 1000"
    by simp
  then show "k * 60000 mod msPerDay mod 1000 = 0"
    unfolding e by (metis mod_mult_self2_is_0)
qed

lemma makeTime_whole: "makeTime h mi 0 0 = (h * 60 + mi) * 60000"
  by (simp add: makeTime_def)

lemma startCursor_props:
  "validDate (startCursor now)"
  "timeValue (startCursor now)
     = timeValue now - int (getSeconds now * 1000 + getMilliseconds now) + 60000"
  "getSeconds (startCursor now) = 0" "getMilliseconds (startCursor now) = 0"
proof -
  define c1 where "c1 = setSeconds now 0 0"
  have sc: "startCursor now = setMinutes c1 (getMinutes c1 + 1)"
    by (simp add: startCursor_def c1_def Let_def)
  show "validDate (startCursor now)"
    unfolding sc by (rule setters_valid)
  show "timeValue (startCursor now)
     = timeValue now - int (getSeconds now * 1000 + getMilliseconds now) + 60000"
    unfolding sc timeValue_setMinutes_succ c1_def timeValue_setSeconds_zero by simp
  have z: "getSeconds c1 = 0" "getMilliseconds c1 = 0"
    unfolding c1_def setSeconds_def makeDate_fields makeTime_whole
    by (simp_all only: whole_minutes)
  show "getSeconds (startCursor now) = 0" "getMilliseconds (startCursor now) = 0"
    unfolding sc setMinutes_def makeDate_fields z makeTime_whole
    by (simp_all only: whole_minutes)
qed

lemma bind_Returns_iff: "bind m f = Returns y \<longleftrightarrow> (\<exists>x. m = Returns x \<and> f x = Returns y)"
  by (cases m) auto

lemma getNextRuns_Returns_iff:
  "getNextRuns now expr count = Returns rs \<longleftrightarrow>
     (\<exists>parts fs. parseCron expr = Returns parts \<and> parseFields parts = Returns fs
        \<and> rs = searchLoop (schedule parts fs) count (startCursor now) [] 0)"
  unfolding getNextRuns_def bind_Returns_iff by auto


lemma set_foldl_setInsert: "set (foldl setInsert acc xs) = set acc \<union> set xs"
  by (induction xs arbitrary: acc) (auto simp: set_setInsert)

lemma getDay_less_7: "getDay d < 7"
  unfolding getDay_def by (simp add: nat_less_iff)

lemma getNextRuns_results_match:
  assumes "getNextRuns now expr count = Returns rs" and "parseCron expr = Returns parts"
    and "parseFields parts = Returns fs"
  shows "\<forall>r \<in> set rs. matches (schedule parts fs) r \<and> validDate r"
proof -
  from assms have rs: "rs = searchLoop (schedule parts fs) count (startCursor now) [] 0"
    unfolding getNextRuns_Returns_iff by auto
  have "sorted_wrt (<) (map timeValue rs)
         \<and> (\<forall>r \<in> set rs. timeValue (startCursor now) \<le> timeValue r
               \<and> matches (schedule parts fs) r \<and> validDate r)
         \<and> length rs \<le> count"
    unfolding rs by (rule searchLoop_inv) (simp_all add: startCursor_props)
  then show ?thesis by blast
qed

lemma numIncludes_Nil: "numIncludes [] n = False"
  by (simp add: numIncludes_def)

lemma numIncludes_Cons: "numIncludes (x # xs) n = (x = of_nat n \<or> numIncludes xs n)"
  by (auto simp: numIncludes_def)

lemma numIncludes_upto: "numIncludes (map of_int [a..b]) n \<longleftrightarrow> a \<le> int n \<and> int n \<le> b"
proof -
  have "(of_nat n :: rat) = of_int k \<longleftrightarrow> int n = k" for k
    by (metis of_int_eq_iff of_int_of_nat_eq)
  then show ?thesis
    by (auto simp: numIncludes_def)
qed

lemmas loop_eval =
  searchLoop.simps loopBody_def numIncludes_Nil numIncludes_Cons numIncludes_upto dayMatch_def
  maxIterations_def Let_def date_eval

lemma getNextRuns_eval:
  "parseCron expr = Returns parts \<Longrightarrow> parseFields parts = Returns fs \<Longrightarrow>
   getNextRuns now expr count
     = Returns (searchLoop (schedule parts fs) count (startCursor now) [] 0)"
  by (simp add: getNextRuns_def)


text \<open>
  Claim C1. The day-match decision: with both raw fields \<open>*\<close> every day matches; with only
  day of month \<open>*\<close> a day matches iff its weekday is in the day-of-week set; with only day of
  week \<open>*\<close> iff its day of month is in the day-of-month set; with neither, iff one or the other
  holds. The two flags are read off the raw text of the fields, and every instant that
  \<open>getNextRuns\<close> returns passed the decision with its day of month and its weekday (0 to 6).
\<close>

theorem day_match_rule:
  "(domWild sch \<and> dowWild sch \<longrightarrow> dayMatch sch d w)
   \<and> (domWild sch \<and> \<not> dowWild sch \<longrightarrow> dayMatch sch d w = numIncludes (dowSet sch) w)
   \<and> (\<not> domWild sch \<and> dowWild sch \<longrightarrow> dayMatch sch d w = numIncludes (daysOfMonth sch) d)
   \<and> (\<not> domWild sch \<and> \<not> dowWild sch \<longrightarrow>
        dayMatch sch d w = (numIncludes (daysOfMonth sch) d \<or> numIncludes (dowSet sch) w))
   \<and> domWild (schedule parts fs) = (dayOfMonth parts = ''*'')
   \<and> dowWild (schedule parts fs) = (dayOfWeek parts = ''*'')
   \<and> (getNextRuns now expr count = Returns rs \<and> parseCron expr = Returns parts
        \<and> parseFields parts = Returns fs \<longrightarrow>
        (\<forall>r \<in> set rs. dayMatch (schedule parts fs) (getDate r) (getDay r) \<and> getDay r < 7))"
proof -
  have flags: "domWild (schedule parts fs) = (dayOfMonth parts = ''*'')"
    "dowWild (schedule parts fs) = (dayOfWeek parts = ''*'')"
    by (simp_all add: schedule_def split: prod.splits)
  have res: "\<forall>r \<in> set rs. dayMatch (schedule parts fs) (getDate r) (getDay r) \<and> getDay r < 7"
    if "getNextRuns now expr count = Returns rs \<and> parseCron expr = Returns parts
        \<and> parseFields parts = Returns fs"
    using getNextRuns_results_match[of now expr count rs parts fs] that
    by (simp add: matches_def getDay_less_7)
  show ?thesis
    using flags res by (simp add: dayMatch_def)
qed

theorem day_match_rule_witness:
  "\<exists>parts fs.
     parseCron ''0 9 1 * 1'' = Returns parts \<and> parseFields parts = Returns fs
     \<and> \<not> domWild (schedule parts fs) \<and> \<not> dowWild (schedule parts fs)
     \<and> dayMatch (schedule parts fs) 8 1
     \<and> dayMatch (schedule parts fs) 1 3
     \<and> \<not> dayMatch (schedule parts fs) 9 2
     \<and> getNextRuns \<lparr>getFullYear = 2024, getMonth = 0, getDate = 7, getHours = 23,
           getMinutes = 59, getSeconds = 30, getMilliseconds = 0\<rparr> ''0 9 1 * 1'' 1
         = Returns [\<lparr>getFullYear = 2024, getMonth = 0, getDate = 8, getHours = 9,
             getMinutes = 0, getSeconds = 0, getMilliseconds = 0\<rparr>]
     \<and> getDay \<lparr>getFullYear = 2024, getMonth = 0, getDate = 8, getHours = 9,
             getMinutes = 0, getSeconds = 0, getMilliseconds = 0\<rparr> = 1"
proof -
  define N where "N = \<lparr>getFullYear = 2024, getMonth = 0, getDate = 7, getHours = 23,
      getMinutes = 59, getSeconds = 30, getMilliseconds = 0\<rparr>"
  define p where "p = \<lparr>minute = ''0'', hour = ''9'', dayOfMonth = ''1'', month = ''*'', dayOfWeek = ''1''\<rparr>"
  define fs where "fs = (\<lparr>values_of = [0], raw = ''0''\<rparr>, \<lparr>values_of = [9], raw = ''9''\<rparr>,
      \<lparr>values_of = [1], raw = ''1''\<rparr>, \<lparr>values_of = map of_int [1..12], raw = ''*''\<rparr>,
      \<lparr>values_of = [1], raw = ''1''\<rparr>)"
  have sw: "splitWhiteSpace (trim ''0 9 1 * 1'') = [''0'', ''9'', ''1'', ''*'', ''1'']"
    by (simp add: trim_def isWhiteSpace_def)
  have rn: "replaceNames ''*'' MONTH_MAP = ''*''" "replaceNames ''1'' DAY_MAP = ''1''"
    by (simp_all add: names_eval)
  have pc: "parseCron ''0 9 1 * 1'' = Returns p"
    unfolding parseCron_def Let_def sw p_def by (simp add: rn)
  have f: "parseField ''0'' 0 59 = Returns \<lparr>values_of = [0], raw = ''0''\<rparr>"
    "parseField ''9'' 0 23 = Returns \<lparr>values_of = [9], raw = ''9''\<rparr>"
    "parseField ''1'' 1 31 = Returns \<lparr>values_of = [1], raw = ''1''\<rparr>"
    "parseField ''1'' 0 7 = Returns \<lparr>values_of = [1], raw = ''1''\<rparr>"
    by (simp_all add: field_eval)
  have pf: "parseFields p = Returns fs"
    unfolding fs_def by (rule parseFields_eval) (simp_all add: p_def f parseField_star)
  have sch: "schedule p fs = \<lparr>minutesOf = [0], hoursOf = [9], daysOfMonth = [1],
      months = map of_int [1..12], dowSet = [1],
      domWild = False, dowWild = False\<rparr>"
    by (simp add: schedule_def fs_def p_def setInsert_def)
  have sc: "startCursor N = \<lparr>getFullYear = 2024, getMonth = 0, getDate = 8, getHours = 0,
      getMinutes = 0, getSeconds = 0, getMilliseconds = 0\<rparr>"
    by (simp add: N_def startCursor_def date_eval Let_def)
  have run: "getNextRuns N ''0 9 1 * 1'' 1
      = Returns [\<lparr>getFullYear = 2024, getMonth = 0, getDate = 8, getHours = 9,
             getMinutes = 0, getSeconds = 0, getMilliseconds = 0\<rparr>]"
    unfolding getNextRuns_eval[OF pc pf] sc sch
    by (simp add: loop_eval)
  have wd: "getDay \<lparr>getFullYear = 2024, getMonth = 0, getDate = 8, getHours = 9,
             getMinutes = 0, getSeconds = 0, getMilliseconds = 0\<rparr> = 1"
    by (simp add: date_eval)
  have flags: "\<not> domWild (schedule p fs)" "\<not> dowWild (schedule p fs)"
    using day_match_rule[of "schedule p fs" 0 0 p fs] by (simp_all add: p_def)
  have m1: "dayMatch (schedule p fs) 8 1"
    using day_match_rule[of "schedule p fs" 8 1] flags by (simp add: sch numIncludes_Nil numIncludes_Cons)
  have m2: "dayMatch (schedule p fs) 1 3"
    using day_match_rule[of "schedule p fs" 1 3] flags by (simp add: sch numIncludes_Nil numIncludes_Cons)
  have m3: "\<not> dayMatch (schedule p fs) 9 2"
    using day_match_rule[of "schedule p fs" 9 2] flags by (simp add: sch numIncludes_Nil numIncludes_Cons)
  show ?thesis
    using pc pf flags m1 m2 m3 run wd unfolding N_def by blast
qed



text \<open>
  Claim C6. The weekday 7 is folded onto 0 when the match set is built: the set never holds
  7, holds 0 iff the field's values hold 0 or 7, and holds any other weekday iff the values
  do. From the same instant and for every count, \<open>0 0 * * 7\<close> and \<open>0 0 * * 0\<close> give the same
  result.
\<close>

theorem sunday_seven_equals_zero:
  "getNextRuns now ''0 0 * * 7'' count = getNextRuns now ''0 0 * * 0'' count
   \<and> 7 \<notin> set (dowSet (schedule parts (f0, f1, f2, f3, f4)))
   \<and> (numIncludes (dowSet (schedule parts (f0, f1, f2, f3, f4))) 0
        \<longleftrightarrow> 0 \<in> set (values_of f4) \<or> 7 \<in> set (values_of f4))
   \<and> (0 < w \<and> w < 7 \<longrightarrow>
        (numIncludes (dowSet (schedule parts (f0, f1, f2, f3, f4))) w
           \<longleftrightarrow> of_nat w \<in> set (values_of f4)))"
proof -
  define p7 where "p7 = \<lparr>minute = ''0'', hour = ''0'', dayOfMonth = ''*'', month = ''*'', dayOfWeek = ''7''\<rparr>"
  define p0 where "p0 = \<lparr>minute = ''0'', hour = ''0'', dayOfMonth = ''*'', month = ''*'', dayOfWeek = ''0''\<rparr>"
  have sw: "splitWhiteSpace (trim ''0 0 * * 7'') = [''0'', ''0'', ''*'', ''*'', ''7'']"
    "splitWhiteSpace (trim ''0 0 * * 0'') = [''0'', ''0'', ''*'', ''*'', ''0'']"
    by (simp_all add: trim_def isWhiteSpace_def)
  have rn: "replaceNames ''*'' MONTH_MAP = ''*''" "replaceNames ''7'' DAY_MAP = ''7''"
    "replaceNames ''0'' DAY_MAP = ''0''"
    by (simp_all add: names_eval)
  have pc: "parseCron ''0 0 * * 7'' = Returns p7" "parseCron ''0 0 * * 0'' = Returns p0"
    unfolding parseCron_def Let_def sw p7_def p0_def by (simp_all add: rn)
  have f: "parseField ''0'' 0 59 = Returns \<lparr>values_of = [0], raw = ''0''\<rparr>"
    "parseField ''0'' 0 23 = Returns \<lparr>values_of = [0], raw = ''0''\<rparr>"
    "parseField ''7'' 0 7 = Returns \<lparr>values_of = [7], raw = ''7''\<rparr>"
    "parseField ''0'' 0 7 = Returns \<lparr>values_of = [0], raw = ''0''\<rparr>"
    by (simp_all add: field_eval)
  have pf7: "parseFields p7 = Returns (\<lparr>values_of = [0], raw = ''0''\<rparr>, \<lparr>values_of = [0], raw = ''0''\<rparr>,
      \<lparr>values_of = map of_int [1..31], raw = ''*''\<rparr>, \<lparr>values_of = map of_int [1..12], raw = ''*''\<rparr>,
      \<lparr>values_of = [7], raw = ''7''\<rparr>)"
    by (rule parseFields_eval) (simp_all add: p7_def f parseField_star)
  have pf0: "parseFields p0 = Returns (\<lparr>values_of = [0], raw = ''0''\<rparr>, \<lparr>values_of = [0], raw = ''0''\<rparr>,
      \<lparr>values_of = map of_int [1..31], raw = ''*''\<rparr>, \<lparr>values_of = map of_int [1..12], raw = ''*''\<rparr>,
      \<lparr>values_of = [0], raw = ''0''\<rparr>)"
    by (rule parseFields_eval) (simp_all add: p0_def f parseField_star)
  have sch: "schedule p7 (\<lparr>values_of = [0], raw = ''0''\<rparr>, \<lparr>values_of = [0], raw = ''0''\<rparr>,
      \<lparr>values_of = map of_int [1..31], raw = ''*''\<rparr>, \<lparr>values_of = map of_int [1..12], raw = ''*''\<rparr>,
      \<lparr>values_of = [7], raw = ''7''\<rparr>)
    = schedule p0 (\<lparr>values_of = [0], raw = ''0''\<rparr>, \<lparr>values_of = [0], raw = ''0''\<rparr>,
      \<lparr>values_of = map of_int [1..31], raw = ''*''\<rparr>, \<lparr>values_of = map of_int [1..12], raw = ''*''\<rparr>,
      \<lparr>values_of = [0], raw = ''0''\<rparr>)"
    by (simp add: schedule_def p7_def p0_def setInsert_def)
  have same: "getNextRuns now ''0 0 * * 7'' count = getNextRuns now ''0 0 * * 0'' count"
    unfolding getNextRuns_def pc bind.simps pf7 pf0 sch ..
  have ds: "set (dowSet (schedule parts (f0, f1, f2, f3, f4)))
      = (\<lambda>d. if d = 7 then 0 else d) ` set (values_of f4)"
    by (simp add: schedule_def set_foldl_setInsert)
  have a: "7 \<notin> set (dowSet (schedule parts (f0, f1, f2, f3, f4)))"
    unfolding ds by auto
  have b: "numIncludes (dowSet (schedule parts (f0, f1, f2, f3, f4))) 0
        \<longleftrightarrow> 0 \<in> set (values_of f4) \<or> 7 \<in> set (values_of f4)"
    unfolding numIncludes_def ds by (auto split: if_splits)
  have c: "numIncludes (dowSet (schedule parts (f0, f1, f2, f3, f4))) w
           \<longleftrightarrow> of_nat w \<in> set (values_of f4)" if "0 < w \<and> w < 7"
  proof -
    from that have "(of_nat w :: rat) \<noteq> 0" "(of_nat w :: rat) \<noteq> 7"
      by (simp_all add: of_nat_eq_iff[of w 7, where ?'a = rat, simplified])
    then show ?thesis
      unfolding numIncludes_def ds by (auto split: if_splits)
  qed
  from same a b c show ?thesis by blast
qed

theorem sunday_seven_equals_zero_witness:
  "getNextRuns \<lparr>getFullYear = 2024, getMonth = 0, getDate = 13, getHours = 23, getMinutes = 59,
      getSeconds = 30, getMilliseconds = 0\<rparr> ''0 0 * * 7'' 1
   = Returns [\<lparr>getFullYear = 2024, getMonth = 0, getDate = 14, getHours = 0, getMinutes = 0,
      getSeconds = 0, getMilliseconds = 0\<rparr>]"
proof -
  define N where "N = \<lparr>getFullYear = 2024, getMonth = 0, getDate = 13, getHours = 23,
      getMinutes = 59, getSeconds = 30, getMilliseconds = 0\<rparr>"
  define p0 where "p0 = \<lparr>minute = ''0'', hour = ''0'', dayOfMonth = ''*'', month = ''*'', dayOfWeek = ''0''\<rparr>"
  define fs where "fs = (\<lparr>values_of = [0], raw = ''0''\<rparr>, \<lparr>values_of = [0], raw = ''0''\<rparr>,
      \<lparr>values_of = map of_int [1..31], raw = ''*''\<rparr>, \<lparr>values_of = map of_int [1..12], raw = ''*''\<rparr>,
      \<lparr>values_of = [0], raw = ''0''\<rparr>)"
  have sw: "splitWhiteSpace (trim ''0 0 * * 0'') = [''0'', ''0'', ''*'', ''*'', ''0'']"
    by (simp add: trim_def isWhiteSpace_def)
  have rn: "replaceNames ''*'' MONTH_MAP = ''*''" "replaceNames ''0'' DAY_MAP = ''0''"
    by (simp_all add: names_eval)
  have pc: "parseCron ''0 0 * * 0'' = Returns p0"
    unfolding parseCron_def Let_def sw p0_def by (simp add: rn)
  have f: "parseField ''0'' 0 59 = Returns \<lparr>values_of = [0], raw = ''0''\<rparr>"
    "parseField ''0'' 0 23 = Returns \<lparr>values_of = [0], raw = ''0''\<rparr>"
    "parseField ''0'' 0 7 = Returns \<lparr>values_of = [0], raw = ''0''\<rparr>"
    by (simp_all add: field_eval)
  have pf: "parseFields p0 = Returns fs"
    unfolding fs_def by (rule parseFields_eval) (simp_all add: p0_def f parseField_star)
  have sc: "startCursor N = \<lparr>getFullYear = 2024, getMonth = 0, getDate = 14, getHours = 0,
      getMinutes = 0, getSeconds = 0, getMilliseconds = 0\<rparr>"
    by (simp add: N_def startCursor_def date_eval Let_def)
  have sch: "schedule p0 fs = \<lparr>minutesOf = [0], hoursOf = [0], daysOfMonth = map of_int [1..31],
      months = map of_int [1..12], dowSet = [0], domWild = True, dowWild = False\<rparr>"
    by (simp add: schedule_def fs_def p0_def setInsert_def)
  have "getNextRuns N ''0 0 * * 0'' 1
      = Returns [\<lparr>getFullYear = 2024, getMonth = 0, getDate = 14, getHours = 0, getMinutes = 0,
          getSeconds = 0, getMilliseconds = 0\<rparr>]"
    unfolding getNextRuns_eval[OF pc pf] sc sch
    by (simp add: loop_eval)
  then show ?thesis
    using sunday_seven_equals_zero[of N 1] unfolding N_def by simp
qed

end
